theory Spec2Isabelle
  imports Complex_Main "HOL-Library.AList"
begin

section \<open>Python values\<close>

text \<open>
  The module \<^verbatim>\<open>bond_calc.py\<close> computes with Python floats. In the pricing and in the
  bootstrap they are modelled as mathematical reals: rounding, overflow, infinities and
  NaN are outside the model, so every equation there is an equation of exact arithmetic.
  (The forward rate, a single formula whose value is the point, is modelled with the
  rounding of each operation instead.) What is kept of Python is the
  control flow that depends on the values: the exceptions the operators raise, and the
  switch of \<^verbatim>\<open>pow\<close> from a float to a complex result for a negative base with a
  fractional exponent. The theorems therefore speak of the schedule, of the errors, of
  the keys of a curve and of the formulas a result is computed by. Where a lemma gives a
  result as a number, that number is the value in exact arithmetic, which the float
  program reaches up to rounding; such a lemma is marked as one of exact arithmetic,
  unless every operation on its path is exact in floats as well (sums with 0, products
  and quotients by 1, powers of 1 and of 0, a finite non-zero float over itself).
\<close>

datatype py_error = ValueError | ZeroDivisionError | TypeError | KeyError | OverflowError

datatype pynum = PyFloat real | PyComplex complex

fun to_complex :: "pynum \<Rightarrow> complex" where
  "to_complex (PyFloat x) = complex_of_real x"
| "to_complex (PyComplex z) = z"

fun py_add :: "pynum \<Rightarrow> pynum \<Rightarrow> pynum" where
  "py_add (PyFloat x) (PyFloat y) = PyFloat (x + y)"
| "py_add a b = PyComplex (to_complex a + to_complex b)"

fun py_sub :: "pynum \<Rightarrow> pynum \<Rightarrow> pynum" where
  "py_sub (PyFloat x) (PyFloat y) = PyFloat (x - y)"
| "py_sub a b = PyComplex (to_complex a - to_complex b)"

fun py_mul :: "pynum \<Rightarrow> pynum \<Rightarrow> pynum" where
  "py_mul (PyFloat x) (PyFloat y) = PyFloat (x * y)"
| "py_mul a b = PyComplex (to_complex a * to_complex b)"

text \<open>True division raises \<^verbatim>\<open>ZeroDivisionError\<close> on a zero divisor, float or complex.\<close>

fun py_div :: "pynum \<Rightarrow> pynum \<Rightarrow> py_error + pynum" where
  "py_div (PyFloat x) (PyFloat y) =
     (if y = 0 then Inl ZeroDivisionError else Inr (PyFloat (x / y)))"
| "py_div a b =
     (if to_complex b = 0 then Inl ZeroDivisionError
      else Inr (PyComplex (to_complex a / to_complex b)))"

text \<open>\<^verbatim>\<open>x != 0\<close> is defined on both kinds; \<^verbatim>\<open>x <= 0\<close> raises \<^verbatim>\<open>TypeError\<close> on a complex.\<close>

fun py_ne0 :: "pynum \<Rightarrow> bool" where
  "py_ne0 (PyFloat x) = (x \<noteq> 0)"
| "py_ne0 (PyComplex z) = (z \<noteq> 0)"

fun py_le0 :: "pynum \<Rightarrow> py_error + bool" where
  "py_le0 (PyFloat x) = Inr (x \<le> 0)"
| "py_le0 (PyComplex z) = Inl TypeError"

subsection \<open>The built-in pow\<close>

text \<open>
  Complex power with a real exponent, as CPython computes it: a small integral exponent
  by repeated multiplication (a reciprocal when it is not positive), any other exponent
  in polar form. A zero base with a negative exponent raises.
\<close>

definition c_powi :: "complex \<Rightarrow> int \<Rightarrow> py_error + pynum" where
  "c_powi a n =
     (if n > 0 then Inr (PyComplex (a ^ nat n))
      else if a ^ nat (- n) = 0 then Inl ZeroDivisionError
      else Inr (PyComplex (1 / a ^ nat (- n))))"

definition c_pow :: "complex \<Rightarrow> real \<Rightarrow> py_error + pynum" where
  "c_pow a y =
     (if y = 0 then Inr (PyComplex 1)
      else if a = 0 then (if y < 0 then Inl ZeroDivisionError else Inr (PyComplex 0))
      else Inr (PyComplex (complex_of_real (cmod a powr y) * cis (Arg a * y))))"

definition complex_pow :: "complex \<Rightarrow> real \<Rightarrow> py_error + pynum" where
  "complex_pow a y =
     (if y = of_int \<lfloor>y\<rfloor> \<and> \<bar>y\<bar> \<le> 100 then c_powi a \<lfloor>y\<rfloor> else c_pow a y)"

text \<open>
  Float power: anything to the power 0 is 1; zero to a negative power raises; a negative
  base with a fractional exponent is handed to the complex power; a negative base with an
  integral exponent is the power of the absolute value, negated when the exponent is odd.
  The value is the exact power: the rounding of the C library, its \<^verbatim>\<open>OverflowError\<close> for
  a result too large and its underflow to zero for a result too small have no counterpart
  here.
\<close>

definition float_pow :: "real \<Rightarrow> real \<Rightarrow> py_error + pynum" where
  "float_pow iv iw =
     (if iw = 0 then Inr (PyFloat 1)
      else if iv = 0 then (if iw < 0 then Inl ZeroDivisionError else Inr (PyFloat 0))
      else if iv < 0 then
        (if iw \<noteq> of_int \<lfloor>iw\<rfloor> then complex_pow (complex_of_real iv) iw
         else Inr (PyFloat (if odd \<lfloor>iw\<rfloor> then - ((- iv) powr iw) else (- iv) powr iw)))
      else Inr (PyFloat (iv powr iw)))"

fun py_pow :: "pynum \<Rightarrow> real \<Rightarrow> py_error + pynum" where
  "py_pow (PyFloat x) y = float_pow x y"
| "py_pow (PyComplex z) y = complex_pow z y"

section \<open>Floating-point rounding\<close>

text \<open>
  Rounding of a real to the nearest integer, a tie going to the even one.
\<close>

definition round_half_even :: "real \<Rightarrow> int" where
  "round_half_even x =
     (let f = \<lfloor>x\<rfloor>; r = x - of_int f in
      if r < 1 / 2 then f else if 1 / 2 < r then f + 1 else if even f then f else f + 1)"

text \<open>
  The binary64 number nearest to a real \<open>x\<close>, a tie going to the even significand: when
  \<open>|x|\<close> lies between \<open>2 ^ k\<close> and \<open>2 ^ (k + 1)\<close> the significand has 53 bits and the unit
  in the last place is \<open>2 ^ (k - 52)\<close>. This is the result of one float operation whose
  exact result is \<open>x\<close>. The exponent is not bounded: overflow to infinity and the coarser
  spacing of the subnormal numbers are outside the model.
\<close>

definition fl :: "real \<Rightarrow> real" where
  "fl x =
     (if x = 0 then 0
      else
        let e = \<lfloor>log 2 \<bar>x\<bar>\<rfloor> - 52
        in sgn x * of_int (round_half_even (\<bar>x\<bar> / 2 powr of_int e)) * 2 powr of_int e)"


text \<open>
  The float power with the C library behind it. CPython settles the special cases itself
  (exponent 0, base 0, a negative base, base 1) and hands a positive base other than 1 to
  the library function \<^verbatim>\<open>pow\<close>, here the parameter \<open>libm\<close>, of which nothing is assumed:
  its result may be rounded in any way and may underflow to 0. A result out of the range
  of the floats raises \<^verbatim>\<open>OverflowError\<close>.
\<close>

definition float_pow_libm :: "(real \<Rightarrow> real \<Rightarrow> real) \<Rightarrow> real \<Rightarrow> real \<Rightarrow> py_error + pynum" where
  "float_pow_libm libm iv iw =
     (if iw = 0 then Inr (PyFloat 1)
      else if iv = 0 then (if iw < 0 then Inl ZeroDivisionError else Inr (PyFloat 0))
      else if iv < 0 \<and> iw \<noteq> of_int \<lfloor>iw\<rfloor> then complex_pow (complex_of_real iv) iw
      else
        (let a = \<bar>iv\<bar>; negate_result = (iv < 0 \<and> odd \<lfloor>iw\<rfloor>) in
         if a = 1 then Inr (PyFloat (if negate_result then - 1 else 1))
         else
           (let ix = libm a iw in
            if 2 ^ 1024 \<le> \<bar>ix\<bar> then Inl OverflowError
            else Inr (PyFloat (if negate_result then - ix else ix)))))"


section \<open>Forward rates\<close>


section \<open>Calendar dates\<close>

text \<open>
  \<^verbatim>\<open>datetime.date\<close> of the standard library: a proleptic Gregorian date with a year
  from 1 to 9999. Its constructor raises \<^verbatim>\<open>ValueError\<close> outside that range, dates are
  compared as (year, month, day), and the difference of two dates counts the days between
  their ordinals.
\<close>

datatype date = Date (year: int) (month: int) (day: int)

definition is_leap :: "int \<Rightarrow> bool" where
  "is_leap y = (y mod 4 = 0 \<and> (y mod 100 \<noteq> 0 \<or> y mod 400 = 0))"

definition days_in_month :: "int \<Rightarrow> int \<Rightarrow> int" where
  "days_in_month y m =
     (if m = 2 then (if is_leap y then 29 else 28)
      else if m = 4 \<or> m = 6 \<or> m = 9 \<or> m = 11 then 30 else 31)"

definition valid_date :: "date \<Rightarrow> bool" where
  "valid_date d =
     (1 \<le> year d \<and> year d \<le> 9999 \<and> 1 \<le> month d \<and> month d \<le> 12 \<and>
      1 \<le> day d \<and> day d \<le> days_in_month (year d) (month d))"

definition date_new :: "int \<Rightarrow> int \<Rightarrow> int \<Rightarrow> py_error + date" where
  "date_new y m d =
     (if valid_date (Date y m d) then Inr (Date y m d) else Inl ValueError)"

definition days_before_year :: "int \<Rightarrow> int" where
  "days_before_year y = (let y1 = y - 1 in y1 * 365 + y1 div 4 - y1 div 100 + y1 div 400)"

definition days_before_month :: "int \<Rightarrow> int \<Rightarrow> int" where
  "days_before_month y m =
     [0, 31, 59, 90, 120, 151, 181, 212, 243, 273, 304, 334] ! nat (m - 1)
       + (if m > 2 \<and> is_leap y then 1 else 0)"

definition toordinal :: "date \<Rightarrow> int" where
  "toordinal d = days_before_year (year d) + days_before_month (year d) (month d) + day d"

text \<open>\<^verbatim>\<open>(d2 - d1).days\<close>\<close>

definition days_between :: "date \<Rightarrow> date \<Rightarrow> int" where
  "days_between d1 d2 = toordinal d2 - toordinal d1"

definition date_lt :: "date \<Rightarrow> date \<Rightarrow> bool" where
  "date_lt a b =
     (year a < year b \<or> (year a = year b \<and>
       (month a < month b \<or> (month a = month b \<and> day a < day b))))"

definition date_le :: "date \<Rightarrow> date \<Rightarrow> bool" where
  "date_le a b = (date_lt a b \<or> a = b)"

section \<open>The bond\<close>

record bond =
  face_value :: real
  yield_rate :: real
  coupon_rate :: real
  frequency :: string
  maturity_date :: date
  settlement_date :: date
  convention :: string

definition get_frequency_int :: "bond \<Rightarrow> int" where
  "get_frequency_int b =
     (if frequency b = ''annually'' then 1
      else if frequency b = ''semi-annually'' then 2
      else if frequency b = ''quarterly'' then 4
      else if frequency b = ''monthly'' then 12
      else 1)"

subsection \<open>Day counts\<close>

definition calculate_days_30360 :: "date \<Rightarrow> date \<Rightarrow> int" where
  "calculate_days_30360 d1 d2 =
     (let d1_day = (if day d1 = 31 then 30 else day d1);
          d2_day = (if day d2 = 31 \<and> d1_day = 30 then 30 else day d2)
      in 360 * (year d2 - year d1) + 30 * (month d2 - month d1) + (d2_day - d1_day))"

text \<open>
  \<^verbatim>\<open>_calculate_year_fraction\<close>: one branch for each of the four conventions, and the
  final \<^verbatim>\<open>return 0.0\<close> for any other string. No branch raises.
\<close>

definition calculate_year_fraction :: "bond \<Rightarrow> date \<Rightarrow> date \<Rightarrow> real" where
  "calculate_year_fraction b d1 d2 =
     (if convention b = ''30/360'' then real_of_int (calculate_days_30360 d1 d2) / 360
      else if convention b = ''Actual/360'' then real_of_int (days_between d1 d2) / 360
      else if convention b = ''Actual/365'' then real_of_int (days_between d1 d2) / 365
      else if convention b = ''Actual/Actual'' then
        (let days = days_between d1 d2; y1 = year d1; y2 = year d2 in
         if y1 = y2 then
           real_of_int days / real_of_int (if is_leap y1 then 366 else 365)
         else real_of_int days / 365.25)
      else 0)"

subsection \<open>The coupon schedule\<close>

text \<open>\<^verbatim>\<open>while month <= 0: month += 12; year -= 1\<close>\<close>

function month_wrap_down :: "int \<Rightarrow> int \<Rightarrow> int \<times> int" where
  "month_wrap_down y m = (if m \<le> 0 then month_wrap_down (y - 1) (m + 12) else (y, m))"
  by pat_completeness auto
termination
  by (relation "measure (\<lambda>(y, m). nat (1 - m))") auto

declare month_wrap_down.simps [simp del]

text \<open>\<^verbatim>\<open>while m > 12: m -= 12; y += 1\<close>\<close>

function month_wrap_up :: "int \<Rightarrow> int \<Rightarrow> int \<times> int" where
  "month_wrap_up y m = (if m > 12 then month_wrap_up (y + 1) (m - 12) else (y, m))"
  by pat_completeness auto
termination
  by (relation "measure (\<lambda>(y, m). nat m)") auto

declare month_wrap_up.simps [simp del]

text \<open>
  One backward step of \<^verbatim>\<open>get_last_coupon_date\<close>: the candidate one period earlier. When
  the constructor raises \<^verbatim>\<open>ValueError\<close>, a candidate on day 29 to 31 falls back to day
  28 of the target month (a second \<^verbatim>\<open>ValueError\<close> there is not caught), and a candidate
  on an earlier day is left as it is.
\<close>

definition step_back :: "int \<Rightarrow> date \<Rightarrow> py_error + date" where
  "step_back months_step cur =
     (case month_wrap_down (year cur) (month cur - months_step) of (y, m) \<Rightarrow>
        (case date_new y m (day cur) of
           Inr d \<Rightarrow> Inr d
         | Inl e \<Rightarrow> if day cur \<ge> 29 then date_new y m 28 else Inr cur))"

text \<open>
  The loop \<^verbatim>\<open>while current_candidate > self.settlement_date\<close>. It need not terminate (a
  candidate that is left as it is stays above the settlement date for ever), so the
  result is optional: \<open>None\<close> is a run that never returns.
\<close>

partial_function (option) last_coupon_loop :: "int \<Rightarrow> date \<Rightarrow> date \<Rightarrow> (py_error + date) option" where
  "last_coupon_loop months_step settlement cur =
     (if date_lt settlement cur then
        (case step_back months_step cur of
           Inl e \<Rightarrow> Some (Inl e)
         | Inr d \<Rightarrow> last_coupon_loop months_step settlement d)
      else Some (Inr cur))"

definition get_last_coupon_date :: "bond \<Rightarrow> (py_error + date) option" where
  "get_last_coupon_date b =
     (let freq = get_frequency_int b; months_step = 12 div freq
      in last_coupon_loop months_step (settlement_date b) (maturity_date b))"

text \<open>\<^verbatim>\<open>try: date(y, m, d)  except: date(y, m, 28)\<close>\<close>

definition date_or_28 :: "int \<Rightarrow> int \<Rightarrow> int \<Rightarrow> py_error + date" where
  "date_or_28 y m d = (case date_new y m d of Inr x \<Rightarrow> Inr x | Inl e \<Rightarrow> date_new y m 28)"

text \<open>
  The date one period after \<open>d\<close>, as \<^verbatim>\<open>calculate\<close> computes it both for the first
  coupon after the last one and inside the cash-flow loop.
\<close>

definition next_coupon_date :: "bond \<Rightarrow> date \<Rightarrow> py_error + date" where
  "next_coupon_date b d =
     (let months_step = 12 div get_frequency_int b in
      case month_wrap_up (year d) (month d + months_step) of (y, m) \<Rightarrow>
        date_or_28 y m (day d))"

text \<open>
  The same step in the Actual/Actual branch of the accrued interest, where the month is
  wrapped by a single \<^verbatim>\<open>if\<close>.
\<close>

definition next_coupon_date_if :: "bond \<Rightarrow> date \<Rightarrow> py_error + date" where
  "next_coupon_date_if b d =
     (let months_step = 12 div get_frequency_int b;
          m_next = month d + months_step
      in if m_next > 12 then date_or_28 (year d + 1) (m_next - 12) (day d)
         else date_or_28 (year d) m_next (day d))"

subsection \<open>Accrued interest\<close>

text \<open>
  Step 1 of \<^verbatim>\<open>calculate\<close>: the days accrued since the last coupon and the accrued
  interest, by convention; every string other than the first three takes the
  Actual/Actual branch.
\<close>

definition accrued :: "bond \<Rightarrow> date \<Rightarrow> py_error + (int \<times> real)" where
  "accrued b last_coupon =
     (let freq = get_frequency_int b;
          coupon_val = face_value b * (coupon_rate b / 100) / real_of_int freq
      in
      if convention b = ''30/360'' then
        (let days_accrued = calculate_days_30360 last_coupon (settlement_date b)
         in Inr (days_accrued, coupon_val * (real_of_int days_accrued / (360 / real_of_int freq))))
      else if convention b = ''Actual/360'' then
        (let days_accrued = days_between last_coupon (settlement_date b)
         in Inr (days_accrued, coupon_val * (real_of_int days_accrued / (360 / real_of_int freq))))
      else if convention b = ''Actual/365'' then
        (let days_accrued = days_between last_coupon (settlement_date b)
         in Inr (days_accrued, coupon_val * (real_of_int days_accrued / (365 / real_of_int freq))))
      else
        (let days_accrued = days_between last_coupon (settlement_date b) in
         case next_coupon_date_if b last_coupon of
           Inl e \<Rightarrow> Inl e
         | Inr next_coupon \<Rightarrow>
             (let days_in_period = days_between last_coupon next_coupon in
              if days_in_period = 0 then Inl ZeroDivisionError
              else Inr (days_accrued,
                coupon_val * (real_of_int days_accrued / real_of_int days_in_period)))))"

subsection \<open>Cash flows\<close>

text \<open>
  The loop \<^verbatim>\<open>while current_cf_date <= self.maturity_date\<close>: the coupon, with the face
  value added on the maturity date itself, is appended and the date advances by one
  period.
\<close>

function generate_cash_flows ::
  "bond \<Rightarrow> real \<Rightarrow> date \<Rightarrow> (date \<times> real) list \<Rightarrow> py_error + (date \<times> real) list" where
  "generate_cash_flows b coupon_val current_cf_date cash_flows =
     (if date_le current_cf_date (maturity_date b) then
        (let amount = (if current_cf_date = maturity_date b then coupon_val + face_value b
                       else coupon_val)
         in case next_coupon_date b current_cf_date of
              Inl e \<Rightarrow> Inl e
            | Inr d \<Rightarrow>
                generate_cash_flows b coupon_val d (cash_flows @ [(current_cf_date, amount)]))
      else Inr cash_flows)"
  by pat_completeness auto

text \<open>
  Termination: the constructor accepts no year after 9999, and every step moves the date
  at least one month forward.
\<close>

lemma month_wrap_up_months:
  "month_wrap_up y m = (y', m') \<Longrightarrow> 12 * y' + m' = 12 * y + m"
proof (induction y m rule: month_wrap_up.induct)
  case (1 y m)
  then show ?case
    by (cases "m > 12") (simp_all add: month_wrap_up.simps [of y m])
qed

lemma months_step_cases:
  "12 div get_frequency_int b = 12 \<or> 12 div get_frequency_int b = 6 \<or>
   12 div get_frequency_int b = 3 \<or> 12 div get_frequency_int b = 1"
  by (simp add: get_frequency_int_def)

lemma date_new_Inr:
  "date_new y m d = Inr x \<Longrightarrow> x = Date y m d \<and> valid_date x"
  by (auto simp: date_new_def split: if_splits)

lemma date_or_28_Inr:
  "date_or_28 y m d = Inr x \<Longrightarrow> year x = y \<and> month x = m \<and> valid_date x"
  by (auto simp: date_or_28_def split: sum.splits dest!: date_new_Inr)

lemma next_coupon_date_months:
  assumes "next_coupon_date b d = Inr x"
  shows "12 * year x + month x = 12 * year d + month d + 12 div get_frequency_int b"
    and "valid_date x"
proof -
  obtain y m where w: "month_wrap_up (year d) (month d + 12 div get_frequency_int b) = (y, m)"
    by (cases "month_wrap_up (year d) (month d + 12 div get_frequency_int b)")
  with assms have x: "date_or_28 y m (day d) = Inr x"
    by (simp add: next_coupon_date_def Let_def)
  from date_or_28_Inr [OF x] month_wrap_up_months [OF w]
  show "12 * year x + month x = 12 * year d + month d + 12 div get_frequency_int b"
    and "valid_date x" by simp_all
qed

termination generate_cash_flows
proof (relation "measure (\<lambda>(b, c, d, fs). nat (120000 - (12 * year d + month d)))")
  show "wf (measure (\<lambda>(b, c, d, fs). nat (120000 - (12 * year d + month d))))"
    by simp
next
  fix b :: bond and coupon_val :: real and current_cf_date :: date
    and cash_flows :: "(date \<times> real) list" and x :: real and x2 :: date
  assume "next_coupon_date b current_cf_date = Inr x2"
  from next_coupon_date_months [OF this] months_step_cases [of b]
  have "12 * year current_cf_date + month current_cf_date < 12 * year x2 + month x2"
    and "12 * year x2 + month x2 \<le> 120000"
    by (auto simp: valid_date_def)
  then show "((b, coupon_val, x2, cash_flows @ [(current_cf_date, x)]),
              (b, coupon_val, current_cf_date, cash_flows))
             \<in> measure (\<lambda>(b, c, d, fs). nat (120000 - (12 * year d + month d)))"
    by simp
qed

subsection \<open>Discounting\<close>

text \<open>
  The loop over the cash flows, threading the three running sums \<^verbatim>\<open>dirty_price\<close>,
  \<^verbatim>\<open>duration_sum\<close> and \<^verbatim>\<open>convexity_sum\<close>.
\<close>

fun discount_loop ::
  "bond \<Rightarrow> (date \<times> real) list \<Rightarrow> pynum \<times> pynum \<times> pynum \<Rightarrow> py_error + pynum \<times> pynum \<times> pynum" where
  "discount_loop b [] acc = Inr acc"
| "discount_loop b ((cf_date, amount) # cfs) (dirty_price, duration_sum, convexity_sum) =
     (let freq = real_of_int (get_frequency_int b);
          yield_dec = yield_rate b / 100;
          t = calculate_year_fraction b (settlement_date b) cf_date;
          n = freq * t
      in
      case float_pow (1 + yield_dec / freq) n of Inl e \<Rightarrow> Inl e | Inr p \<Rightarrow>
      case py_div (PyFloat 1) p of Inl e \<Rightarrow> Inl e | Inr discount_factor \<Rightarrow>
      let pv = py_mul (PyFloat amount) discount_factor in
      case float_pow (1 + yield_dec / freq) (n + 2) of Inl e \<Rightarrow> Inl e | Inr p2 \<Rightarrow>
      case py_div (PyFloat (amount * n * (n + 1))) p2 of Inl e \<Rightarrow> Inl e | Inr c \<Rightarrow>
        discount_loop b cfs
          (py_add dirty_price pv, py_add duration_sum (py_mul (PyFloat t) pv),
           py_add convexity_sum c))"

subsection \<open>The pricing result\<close>

record calc_result =
  dirty_price :: pynum
  clean_price :: pynum
  accrued_interest :: real
  days_accrued :: int
  macaulay_duration :: pynum
  modified_duration :: pynum
  convexity :: pynum

text \<open>
  Step 2 of \<^verbatim>\<open>calculate\<close>: the first coupon date after the last one, and from it
  the remaining cash flows.
\<close>

definition cash_flows_from :: "bond \<Rightarrow> date \<Rightarrow> py_error + (date \<times> real) list" where
  "cash_flows_from b last_coupon =
     (let freq = real_of_int (get_frequency_int b);
          coupon_val = face_value b * (coupon_rate b / 100) / freq
      in case next_coupon_date b last_coupon of
           Inl e \<Rightarrow> Inl e
         | Inr first_cf_date \<Rightarrow> generate_cash_flows b coupon_val first_cf_date [])"

text \<open>\<^verbatim>\<open>calculate\<close> from the last coupon date on.\<close>

definition calculate_from :: "bond \<Rightarrow> date \<Rightarrow> py_error + calc_result" where
  "calculate_from b last_coupon =
     (let freq = real_of_int (get_frequency_int b);
          yield_dec = yield_rate b / 100
      in
      case accrued b last_coupon of Inl e \<Rightarrow> Inl e | Inr (days_acc, accrued_int) \<Rightarrow>
      case cash_flows_from b last_coupon of Inl e \<Rightarrow> Inl e | Inr cash_flows \<Rightarrow>
      case discount_loop b cash_flows (PyFloat 0, PyFloat 0, PyFloat 0) of
        Inl e \<Rightarrow> Inl e
      | Inr (dirty, duration_sum, convexity_sum) \<Rightarrow>
      let clean = py_sub dirty (PyFloat accrued_int) in
      case (if py_ne0 dirty then py_div duration_sum dirty else Inr (PyFloat 0)) of
        Inl e \<Rightarrow> Inl e
      | Inr macaulay \<Rightarrow>
      case py_div macaulay (PyFloat (1 + yield_dec / freq)) of Inl e \<Rightarrow> Inl e | Inr modified \<Rightarrow>
      case (if py_ne0 dirty
            then py_div convexity_sum (py_mul (py_mul dirty (PyFloat freq)) (PyFloat freq))
            else Inr (PyFloat 0)) of
        Inl e \<Rightarrow> Inl e
      | Inr conv \<Rightarrow>
          Inr \<lparr>dirty_price = dirty, clean_price = clean, accrued_interest = accrued_int,
               days_accrued = days_acc, macaulay_duration = macaulay,
               modified_duration = modified, convexity = conv\<rparr>)"

definition calculate :: "bond \<Rightarrow> (py_error + calc_result) option" where
  "calculate b =
     (case get_last_coupon_date b of
        None \<Rightarrow> None
      | Some (Inl e) \<Rightarrow> Some (Inl e)
      | Some (Inr last_coupon) \<Rightarrow> Some (calculate_from b last_coupon))"

text \<open>The cash flows that \<^verbatim>\<open>calculate\<close> builds for a bond.\<close>

definition cash_flows :: "bond \<Rightarrow> (py_error + (date \<times> real) list) option" where
  "cash_flows b =
     (case get_last_coupon_date b of
        None \<Rightarrow> None
      | Some (Inl e) \<Rightarrow> Some (Inl e)
      | Some (Inr last_coupon) \<Rightarrow> Some (cash_flows_from b last_coupon))"

section \<open>The reference formulas of the specification\<close>

text \<open>
  The pricing formulas as the specification words them: for a cash flow on date \<open>d\<close>,
  \<open>t\<close> is the year fraction from the settlement date to \<open>d\<close>, \<open>n = frequency * t\<close> is the
  period count (a real number, not rounded), and the discount factor is
  \<open>(1 + yieldRate / frequency)\<close> to the power \<open>- n\<close>.
\<close>

definition discount_base :: "bond \<Rightarrow> real" where
  "discount_base b = 1 + yield_rate b / 100 / real_of_int (get_frequency_int b)"

definition ref_time :: "bond \<Rightarrow> date \<Rightarrow> real" where
  "ref_time b d = calculate_year_fraction b (settlement_date b) d"

definition ref_periods :: "bond \<Rightarrow> date \<Rightarrow> real" where
  "ref_periods b d = real_of_int (get_frequency_int b) * ref_time b d"

definition ref_discount_factor :: "bond \<Rightarrow> date \<Rightarrow> real" where
  "ref_discount_factor b d = discount_base b powr (- ref_periods b d)"

definition ref_dirty_price :: "bond \<Rightarrow> (date \<times> real) list \<Rightarrow> real" where
  "ref_dirty_price b cfs = (\<Sum>(d, amount)\<leftarrow>cfs. amount * ref_discount_factor b d)"

definition ref_duration_sum :: "bond \<Rightarrow> (date \<times> real) list \<Rightarrow> real" where
  "ref_duration_sum b cfs =
     (\<Sum>(d, amount)\<leftarrow>cfs. ref_time b d * (amount * ref_discount_factor b d))"

definition ref_convexity_sum :: "bond \<Rightarrow> (date \<times> real) list \<Rightarrow> real" where
  "ref_convexity_sum b cfs =
     (\<Sum>(d, amount)\<leftarrow>cfs. amount * ref_periods b d * (ref_periods b d + 1)
        * discount_base b powr (- (ref_periods b d + 2)))"

definition ref_macaulay :: "bond \<Rightarrow> (date \<times> real) list \<Rightarrow> real" where
  "ref_macaulay b cfs =
     (if ref_dirty_price b cfs = 0 then 0 else ref_duration_sum b cfs / ref_dirty_price b cfs)"

definition reference_formulas :: "bond \<Rightarrow> (date \<times> real) list \<Rightarrow> calc_result \<Rightarrow> bool" where
  "reference_formulas b cfs r =
     (dirty_price r = PyFloat (ref_dirty_price b cfs) \<and>
      clean_price r = PyFloat (ref_dirty_price b cfs - accrued_interest r) \<and>
      macaulay_duration r = PyFloat (ref_macaulay b cfs) \<and>
      modified_duration r = PyFloat (ref_macaulay b cfs / discount_base b) \<and>
      convexity r = PyFloat
        (if ref_dirty_price b cfs = 0 then 0
         else ref_convexity_sum b cfs
              / (ref_dirty_price b cfs * (real_of_int (get_frequency_int b))\<^sup>2)))"

section \<open>Bootstrapping the spot curve\<close>

text \<open>
  A Python dictionary with integer keys is an association list in insertion order:
  \<open>map_of\<close> reads a key, \<open>AList.update\<close> writes one, and the keys are the first
  components without repetition.
\<close>

type_synonym 'v dict = "(int \<times> 'v) list"

definition dict_keys :: "'v dict \<Rightarrow> int list" where
  "dict_keys d = remdups (map fst d)"

text \<open>
  The inner loop \<^verbatim>\<open>for t in range(1, year)\<close>: a year present in the curve adds the
  present value of one coupon, an absent year is passed over.
\<close>

fun pv_prior_loop :: "real \<Rightarrow> pynum dict \<Rightarrow> int list \<Rightarrow> pynum \<Rightarrow> py_error + pynum" where
  "pv_prior_loop coupon spot_curve [] pv_prior_coupons = Inr pv_prior_coupons"
| "pv_prior_loop coupon spot_curve (t # ts) pv_prior_coupons =
     (case map_of spot_curve t of
        None \<Rightarrow> pv_prior_loop coupon spot_curve ts pv_prior_coupons
      | Some s \<Rightarrow>
          (case py_div s (PyFloat 100) of Inl e \<Rightarrow> Inl e | Inr z_t \<Rightarrow>
           case py_pow (py_add (PyFloat 1) z_t) (real_of_int t) of Inl e \<Rightarrow> Inl e | Inr p \<Rightarrow>
           case py_div (PyFloat coupon) p of Inl e \<Rightarrow> Inl e | Inr c \<Rightarrow>
             pv_prior_loop coupon spot_curve ts (py_add pv_prior_coupons c)))"

definition pv_prior_coupons :: "real \<Rightarrow> pynum dict \<Rightarrow> int \<Rightarrow> py_error + pynum" where
  "pv_prior_coupons coupon spot_curve yr = pv_prior_loop coupon spot_curve [1..yr - 1] (PyFloat 0)"

text \<open>
  The rest of the body of the outer loop: the spot rate of the year from the value that
  remains for the final payment, clamped to 0.0 when nothing remains. The root, the
  subtraction and the product are exact here and rounded in the program.
\<close>

definition solve_year :: "int \<Rightarrow> real \<Rightarrow> pynum \<Rightarrow> py_error + pynum" where
  "solve_year yr coupon pv_prior =
     (let remaining_val = py_sub (PyFloat 100) pv_prior in
      case py_le0 remaining_val of
        Inl e \<Rightarrow> Inl e
      | Inr True \<Rightarrow> Inr (PyFloat 0)
      | Inr False \<Rightarrow>
          (let final_payment = 100 + coupon in
           case py_div remaining_val (PyFloat final_payment) of Inl e \<Rightarrow> Inl e | Inr discount_factor_n \<Rightarrow>
           case py_div (PyFloat 1) discount_factor_n of Inl e \<Rightarrow> Inl e | Inr recip \<Rightarrow>
           if yr = 0 then Inl ZeroDivisionError
           else
             case py_pow recip (1 / real_of_int yr) of Inl e \<Rightarrow> Inl e | Inr z_n1 \<Rightarrow>
               Inr (py_mul (py_sub z_n1 (PyFloat 1)) (PyFloat 100))))"

text \<open>The body of the outer loop for one year.\<close>

definition bootstrap_year :: "pynum dict \<Rightarrow> int \<Rightarrow> real \<Rightarrow> py_error + pynum dict" where
  "bootstrap_year spot_curve yr par_pct =
     (let par_yield = par_pct / 100; coupon = 100 * par_yield in
      case pv_prior_coupons coupon spot_curve yr of
        Inl e \<Rightarrow> Inl e
      | Inr pv_prior \<Rightarrow>
          (case solve_year yr coupon pv_prior of
             Inl e \<Rightarrow> Inl e
           | Inr spot \<Rightarrow> Inr (AList.update yr spot spot_curve)))"

fun bootstrap_loop :: "real dict \<Rightarrow> int list \<Rightarrow> pynum dict \<Rightarrow> py_error + pynum dict" where
  "bootstrap_loop par_yields [] spot_curve = Inr spot_curve"
| "bootstrap_loop par_yields (yr # yrs) spot_curve =
     (case map_of par_yields yr of
        None \<Rightarrow> Inl KeyError
      | Some par_pct \<Rightarrow>
          (case bootstrap_year spot_curve yr par_pct of
             Inl e \<Rightarrow> Inl e
           | Inr spot_curve' \<Rightarrow> bootstrap_loop par_yields yrs spot_curve'))"

definition bootstrap_spot_curve :: "real dict \<Rightarrow> py_error + pynum dict" where
  "bootstrap_spot_curve par_yields =
     (let sorted_years = sort (dict_keys par_yields)
      in bootstrap_loop par_yields sorted_years [])"

declare generate_cash_flows.simps [simp del]

section \<open>The example of the test file\<close>

text \<open>
  The bond of \<^verbatim>\<open>test_bond_initial.py\<close>: face 100, yield 6%, annual coupon 5%, maturity
  2029-01-23, settlement 2026-01-27, day count 30/360.
\<close>

definition example_bond :: bond where
  "example_bond =
     \<lparr>face_value = 100, yield_rate = 6, coupon_rate = 5, frequency = ''annually'',
      maturity_date = Date 2029 1 23, settlement_date = Date 2026 1 27,
      convention = ''30/360''\<rparr>"

section \<open>The prior-coupon value of the specification\<close>

text \<open>
  The spot rates of a curve that are floats, as a partial map from years to percentages.
\<close>

definition spot_percent :: "pynum dict \<Rightarrow> int \<Rightarrow> real option" where
  "spot_percent spot_curve t =
     (case map_of spot_curve t of Some (PyFloat z) \<Rightarrow> Some z | _ \<Rightarrow> None)"

text \<open>
  The specification's formula: the sum over the integers \<open>t\<close> from 1 to \<open>Y - 1\<close> of
  \<open>coupon / (1 + spot t / 100) ^ t\<close>, where a year absent from the curve adds zero.
\<close>

definition pv_prior_spec :: "real \<Rightarrow> (int \<Rightarrow> real option) \<Rightarrow> int \<Rightarrow> real" where
  "pv_prior_spec coupon spot Y =
     (\<Sum>t = 1..Y - 1. case spot t of None \<Rightarrow> 0 | Some s \<Rightarrow> coupon / (1 + s / 100) ^ nat t)"

text \<open>A curve all of whose rates are floats above -100%.\<close>

definition positive_curve :: "pynum dict \<Rightarrow> bool" where
  "positive_curve sc = (\<forall>t s. map_of sc t = Some s \<longrightarrow> (\<exists>z. s = PyFloat z \<and> 0 < 1 + z / 100))"

text \<open>The curve that holds the rate \<open>p\<close> for exactly the years 1 to \<open>k\<close>.\<close>

definition flat_curve :: "real \<Rightarrow> int \<Rightarrow> pynum dict \<Rightarrow> bool" where
  "flat_curve p k sc = (\<forall>t. map_of sc t = (if 1 \<le> t \<and> t \<le> k then Some (PyFloat p) else None))"

section \<open>Months on a line\<close>

text \<open>The months of all years counted on one axis: the coupon schedule steps along it.\<close>

definition month_index :: "date \<Rightarrow> int" where
  "month_index d = 12 * year d + month d"


section \<open>Properties of the numeric model\<close>

lemma float_pow_pos: "0 < x \<Longrightarrow> float_pow x y = Inr (PyFloat (x powr y))"
  by (simp add: float_pow_def)

section \<open>Properties of the rounding\<close>

lemma round_half_even_near:
  assumes "of_int m - 1 / 2 < x" and "x < of_int m + 1 / 2"
  shows "round_half_even x = m"
proof -
  consider "of_int m \<le> x" | "x < of_int m" by linarith
  then show ?thesis
  proof cases
    case 1
    with assms(2) have "\<lfloor>x\<rfloor> = m" by (intro floor_unique) linarith+
    with assms(2) show ?thesis by (simp add: round_half_even_def Let_def)
  next
    case 2
    have f: "\<lfloor>x\<rfloor> = m - 1"
    proof (rule floor_unique)
      show "of_int (m - 1) \<le> x" using assms(1) by simp
      show "x < of_int (m - 1) + 1" using 2 by simp
    qed
    with assms(1) 2 show ?thesis by (simp add: round_half_even_def Let_def)
  qed
qed

lemma round_half_even_int [simp]: "round_half_even (of_int m) = m"
  by (rule round_half_even_near) simp_all


lemma fl_zero [simp]: "fl 0 = 0"
  by (simp add: fl_def)


lemma fl_round:
  assumes "0 < x" and "2 powr of_int k \<le> x" and "x < 2 powr of_int (k + 1)"
    and "of_int m - 1 / 2 < x / 2 powr of_int (k - 52)"
    and "x / 2 powr of_int (k - 52) < of_int m + 1 / 2"
  shows "fl x = of_int m * 2 powr of_int (k - 52)"
proof -
  have "\<lfloor>log 2 x\<rfloor> = k"
    using assms(1-3) by (simp add: floor_log_eq_powr_iff)
  with assms(1) round_half_even_near [OF assms(4,5)] show ?thesis
    by (simp add: fl_def Let_def)
qed

lemma fl_one [simp]: "fl 1 = 1"
  using fl_round [of 1 0 "2 ^ 52"] by (simp add: powr_minus)

lemma float_pow_libm_one [simp]: "float_pow_libm libm 1 w = Inr (PyFloat 1)"
  by (simp add: float_pow_libm_def)

section \<open>Properties of the forward rate\<close>










section \<open>Evaluation of the date functions\<close>

lemma month_wrap_down_eval:
  "m > 0 \<Longrightarrow> month_wrap_down y m = (y, m)"
  "m \<le> 0 \<Longrightarrow> month_wrap_down y m = month_wrap_down (y - 1) (m + 12)"
  by (simp_all add: month_wrap_down.simps [of y m])

lemma month_wrap_up_eval:
  "m \<le> 12 \<Longrightarrow> month_wrap_up y m = (y, m)"
  "m > 12 \<Longrightarrow> month_wrap_up y m = month_wrap_up (y + 1) (m - 12)"
  by (simp_all add: month_wrap_up.simps [of y m])

lemmas date_eval = date_lt_def date_le_def date_new_def valid_date_def days_in_month_def
  is_leap_def date_or_28_def month_wrap_down_eval month_wrap_up_eval

lemma date_le_not_lt: "date_le a b \<Longrightarrow> \<not> date_lt b a"
  by (auto simp: date_le_def date_lt_def)

section \<open>Properties of the day count\<close>

text \<open>
  C4 (as the code has it). For every pair of dates, the year fraction under a day-count
  convention that is none of 30/360, Actual/360, Actual/365 and Actual/Actual is zero:
  the function ends in \<^verbatim>\<open>return 0.0\<close> and raises nothing.
\<close>

theorem year_fraction_unknown_convention:
  assumes "convention b \<noteq> ''30/360''" and "convention b \<noteq> ''Actual/360''"
    and "convention b \<noteq> ''Actual/365''" and "convention b \<noteq> ''Actual/Actual''"
  shows "calculate_year_fraction b d1 d2 = 0"
  using assms by (simp add: calculate_year_fraction_def)

theorem year_fraction_unknown_convention_witness:
  "calculate_year_fraction (example_bond\<lparr>convention := ''Actual/366''\<rparr>)
     (Date 2026 1 27) (Date 2029 1 23) = 0"
  by (rule year_fraction_unknown_convention) (simp_all add: example_bond_def)

text \<open>
  The claim that an unrecognised convention is an error and never a silent zero fails
  on two different dates under the convention string 30E/360.
\<close>

theorem year_fraction_invalid_convention_counterexample:
  "calculate_year_fraction (example_bond\<lparr>convention := ''30E/360''\<rparr>)
     (Date 2026 1 27) (Date 2029 1 23) = 0 \<and> Date 2026 1 27 \<noteq> Date 2029 1 23"
  by (simp add: calculate_year_fraction_def example_bond_def)

section \<open>Properties of the last coupon date\<close>

text \<open>
  With the settlement a year after the maturity, the example bond is priced without any
  error: no cash flow is left, the dirty price is 0 and the clean price is minus the
  interest accrued over 338 days.
\<close>

theorem invalid_date_range_counterexample:
  "get_last_coupon_date (example_bond\<lparr>settlement_date := Date 2030 1 1\<rparr>)
     = Some (Inr (Date 2029 1 23)) \<and>
   calculate (example_bond\<lparr>settlement_date := Date 2030 1 1\<rparr>)
     = Some (Inr \<lparr>dirty_price = PyFloat 0, clean_price = PyFloat (- (169 / 36)),
                   accrued_interest = 169 / 36, days_accrued = 338,
                   macaulay_duration = PyFloat 0, modified_duration = PyFloat 0,
                   convexity = PyFloat 0\<rparr>)"
  by (simp add: calculate_def get_last_coupon_date_def last_coupon_loop.simps example_bond_def
      get_frequency_int_def date_eval calculate_from_def accrued_def calculate_days_30360_def
      cash_flows_from_def next_coupon_date_def generate_cash_flows.simps)

section \<open>Properties of the bootstrap\<close>

lemma float_pow_int:
  assumes "x \<noteq> 0" and "1 \<le> n"
  shows "float_pow x (real_of_int n) = Inr (PyFloat (x ^ nat n))"
proof -
  have n: "real_of_int n = real (nat n)" using assms(2) by simp
  show ?thesis
  proof (cases "0 < x")
    case True
    then show ?thesis using assms(2)
      by (simp add: float_pow_def n powr_realpow del: of_nat_nat)
  next
    case False
    with assms(1) have neg: "x < 0" by simp
    then have p: "(- x) powr real_of_int n = (- x) ^ nat n"
      by (simp add: n powr_realpow del: of_nat_nat)
    have "odd n \<longleftrightarrow> odd (nat n)" using assms(2) by (simp add: even_nat_iff)
    then show ?thesis using neg assms(2)
      by (simp add: float_pow_def p)
  qed
qed

lemma complex_pow_complex: "complex_pow a y = Inr x \<Longrightarrow> \<exists>w. x = PyComplex w"
  by (auto simp: complex_pow_def c_powi_def c_pow_def split: if_splits)

lemma py_div_complex: "py_div a (PyComplex w) = Inr x \<Longrightarrow> \<exists>w'. x = PyComplex w'"
  by (cases a) (auto split: if_splits)

lemma py_add_complex: "\<exists>w'. py_add a (PyComplex w) = PyComplex w'"
  by (cases a) auto

lemma pv_prior_loop_complex:
  "pv_prior_loop c sc ts (PyComplex w) = Inr r \<Longrightarrow> \<exists>w'. r = PyComplex w'"
  by (induction ts arbitrary: w) (auto split: option.splits sum.splits)

lemma pv_prior_loop_float:
  assumes "\<forall>t\<in>set ts. 1 \<le> t"
    and "\<forall>t\<in>set ts. \<forall>s. map_of sc t = Some s \<longrightarrow> (\<exists>z. s = PyFloat z \<and> 1 + z / 100 \<noteq> 0)"
  shows "pv_prior_loop c sc ts (PyFloat a) =
         Inr (PyFloat (a + (\<Sum>t\<leftarrow>ts. case spot_percent sc t of None \<Rightarrow> 0
                                 | Some s \<Rightarrow> c / (1 + s / 100) ^ nat t)))"
  using assms
proof (induction ts arbitrary: a)
  case Nil
  then show ?case by simp
next
  case (Cons t ts)
  show ?case
  proof (cases "map_of sc t")
    case None
    then show ?thesis using Cons by (simp add: spot_percent_def)
  next
    case (Some s)
    with Cons.prems obtain z where z: "s = PyFloat z" "1 + z / 100 \<noteq> 0" and t: "1 \<le> t"
      by auto
    have pow: "float_pow (1 + z / 100) (real_of_int t) = Inr (PyFloat ((1 + z / 100) ^ nat t))"
      using z(2) t by (rule float_pow_int)
    show ?thesis using Some z Cons pow
      by (simp add: spot_percent_def add.assoc)
  qed
qed

lemma pv_prior_loop_float_result:
  assumes "pv_prior_loop c sc ts (PyFloat a) = Inr (PyFloat r)" and "\<forall>t\<in>set ts. 1 \<le> t"
  shows "\<forall>t\<in>set ts. \<forall>s. map_of sc t = Some s \<longrightarrow> (\<exists>z. s = PyFloat z \<and> 1 + z / 100 \<noteq> 0)"
  using assms
proof (induction ts arbitrary: a)
  case Nil
  then show ?case by simp
next
  case (Cons t ts)
  show ?case
  proof (cases "map_of sc t")
    case None
    then show ?thesis using Cons by simp
  next
    case (Some s)
    show ?thesis
    proof (cases s)
      case (PyFloat z)
      have t: "1 \<le> t" using Cons.prems(2) by simp
      show ?thesis
      proof (cases "1 + z / 100 = 0")
        case True
        then have "float_pow (1 + z / 100) (real_of_int t) = Inr (PyFloat 0)"
          using t by (simp add: float_pow_def)
        then show ?thesis using Cons.prems(1) Some PyFloat by simp
      next
        case False
        have pow: "float_pow (1 + z / 100) (real_of_int t) = Inr (PyFloat ((1 + z / 100) ^ nat t))"
          using False t by (rule float_pow_int)
        from Cons.prems(1) Some PyFloat pow False
        have "pv_prior_loop c sc ts (PyFloat (a + c / (1 + z / 100) ^ nat t)) = Inr (PyFloat r)"
          by simp
        from Cons.IH [OF this] Cons.prems(2) Some PyFloat False show ?thesis by simp
      qed
    next
      case (PyComplex w)
      have False
      proof -
        from Cons.prems(1) Some PyComplex obtain x2 x2a where
          x2: "complex_pow (1 + w / 100) (real_of_int t) = Inr x2"
          and x2a: "py_div (PyFloat c) x2 = Inr x2a"
          and l: "pv_prior_loop c sc ts (py_add (PyFloat a) x2a) = Inr (PyFloat r)"
          by (auto split: sum.splits if_splits)
        from complex_pow_complex [OF x2] obtain w2 where "x2 = PyComplex w2" ..
        with py_div_complex x2a obtain w3 where "x2a = PyComplex w3" by blast
        with l pv_prior_loop_complex [of c sc ts] show False by auto
      qed
      then show ?thesis ..
    qed
  qed
qed


lemma pv_prior_coupons_float:
  assumes "pv_prior_coupons c sc Y = Inr (PyFloat r)"
  shows "r = pv_prior_spec c (spot_percent sc) Y"
    and "\<forall>t\<in>{1..Y - 1}. \<forall>s. map_of sc t = Some s \<longrightarrow> (\<exists>z. s = PyFloat z \<and> 1 + z / 100 \<noteq> 0)"
proof -
  have ge: "\<forall>t\<in>set [1..Y - 1]. 1 \<le> t" by simp
  from assms have l: "pv_prior_loop c sc [1..Y - 1] (PyFloat 0) = Inr (PyFloat r)"
    by (simp add: pv_prior_coupons_def)
  from pv_prior_loop_float_result [OF l ge]
  have fl: "\<forall>t\<in>set [1..Y - 1]. \<forall>s. map_of sc t = Some s \<longrightarrow> (\<exists>z. s = PyFloat z \<and> 1 + z / 100 \<noteq> 0)" .
  then show "\<forall>t\<in>{1..Y - 1}. \<forall>s. map_of sc t = Some s \<longrightarrow> (\<exists>z. s = PyFloat z \<and> 1 + z / 100 \<noteq> 0)"
    by simp
  from pv_prior_loop_float [OF ge fl, of c 0] l
  have "r = (\<Sum>t\<leftarrow>[1..Y - 1]. case spot_percent sc t of None \<Rightarrow> 0
                                 | Some s \<Rightarrow> c / (1 + s / 100) ^ nat t)"
    by simp
  also have "\<dots> = pv_prior_spec c (spot_percent sc) Y"
    unfolding pv_prior_spec_def
    by (subst sum_list_distinct_conv_sum_set) simp_all
  finally show "r = pv_prior_spec c (spot_percent sc) Y" .
qed

lemma solve_year_float: "solve_year Y c pv = Inr v \<Longrightarrow> \<exists>r. pv = PyFloat r"
  by (cases pv) (simp_all add: solve_year_def)

lemma bootstrap_year_Inr:
  assumes "bootstrap_year sc Y p = Inr sc'"
  shows "\<exists>r v. pv_prior_coupons (100 * (p / 100)) sc Y = Inr (PyFloat r) \<and>
               solve_year Y (100 * (p / 100)) (PyFloat r) = Inr v \<and>
               sc' = AList.update Y v sc"
proof -
  from assms obtain pv v where pv: "pv_prior_coupons (100 * (p / 100)) sc Y = Inr pv"
    and v: "solve_year Y (100 * (p / 100)) pv = Inr v" and sc': "sc' = AList.update Y v sc"
    by (auto simp: bootstrap_year_def Let_def split: sum.splits)
  from solve_year_float [OF v] obtain r where "pv = PyFloat r" ..
  with pv v sc' show ?thesis by blast
qed

lemma bootstrap_loop_append:
  "bootstrap_loop par (xs @ ys) sc =
     (case bootstrap_loop par xs sc of Inl e \<Rightarrow> Inl e | Inr sc1 \<Rightarrow> bootstrap_loop par ys sc1)"
  by (induction xs arbitrary: sc) (auto split: option.splits sum.splits)

lemma bootstrap_loop_keys:
  "bootstrap_loop par ys sc = Inr sc' \<Longrightarrow> fst ` set sc' = set ys \<union> fst ` set sc"
proof (induction ys arbitrary: sc)
  case Nil
  then show ?case by simp
next
  case (Cons y ys)
  from Cons.prems obtain p sc1 where y: "bootstrap_year sc y p = Inr sc1"
    and l: "bootstrap_loop par ys sc1 = Inr sc'"
    by (auto split: option.splits sum.splits)
  from bootstrap_year_Inr [OF y] obtain v where "sc1 = AList.update y v sc" by blast
  then have "fst ` set sc1 = {y} \<union> fst ` set sc" by (simp add: dom_update)
  with Cons.IH [OF l] show ?case by auto
qed

lemma bootstrap_loop_distinct:
  "bootstrap_loop par ys sc = Inr sc' \<Longrightarrow> distinct (map fst sc) \<Longrightarrow> distinct (map fst sc')"
proof (induction ys arbitrary: sc)
  case Nil
  then show ?case by simp
next
  case (Cons y ys)
  from Cons.prems obtain p sc1 where y: "bootstrap_year sc y p = Inr sc1"
    and l: "bootstrap_loop par ys sc1 = Inr sc'"
    by (auto split: option.splits sum.splits)
  from bootstrap_year_Inr [OF y] obtain v where "sc1 = AList.update y v sc" by blast
  with Cons.prems(2) have "distinct (map fst sc1)" by (simp add: distinct_update)
  with Cons.IH [OF l] show ?case .
qed

lemma bootstrap_loop_other:
  "bootstrap_loop par ys sc = Inr sc' \<Longrightarrow> t \<notin> set ys \<Longrightarrow> map_of sc' t = map_of sc t"
proof (induction ys arbitrary: sc)
  case Nil
  then show ?case by simp
next
  case (Cons y ys)
  from Cons.prems obtain p sc1 where y: "bootstrap_year sc y p = Inr sc1"
    and l: "bootstrap_loop par ys sc1 = Inr sc'"
    by (auto split: option.splits sum.splits)
  from bootstrap_year_Inr [OF y] obtain v where "sc1 = AList.update y v sc" by blast
  with Cons.prems(2) have "map_of sc1 t = map_of sc t" by (simp add: update_conv')
  with Cons.IH [OF l] Cons.prems(2) show ?case by simp
qed

lemma bootstrap_year_of_result:
  assumes run: "bootstrap_spot_curve par = Inr sc" and p: "map_of par Y = Some p"
  shows "\<exists>v. map_of sc Y = Some v \<and>
             solve_year Y (100 * (p / 100))
               (PyFloat (pv_prior_spec (100 * (p / 100)) (spot_percent sc) Y)) = Inr v \<and>
             (\<forall>t\<in>{1..Y - 1}. \<forall>s. map_of sc t = Some s \<longrightarrow> (\<exists>z. s = PyFloat z \<and> 1 + z / 100 \<noteq> 0))"
proof -
  define ys where "ys = sort (dict_keys par)"
  have sd: "sorted ys" "distinct ys" by (simp_all add: ys_def dict_keys_def)
  from p have "Y \<in> fst ` set par" by (auto dest!: map_of_SomeD intro: rev_image_eqI)
  then have "Y \<in> set ys" by (simp add: ys_def dict_keys_def)
  then obtain ys1 ys2 where ys: "ys = ys1 @ Y # ys2" by (auto dest: split_list)
  from sd ys have lt: "\<forall>t\<in>set ys2. Y < t"
    by (auto simp: sorted_append order_less_le)
  from run have "bootstrap_loop par (ys1 @ Y # ys2) [] = Inr sc"
    by (simp add: bootstrap_spot_curve_def ys_def [symmetric] ys)
  then obtain scY scY' where y: "bootstrap_year scY Y p = Inr scY'"
    and l2: "bootstrap_loop par ys2 scY' = Inr sc"
    using p by (auto simp: bootstrap_loop_append split: sum.splits)
  from bootstrap_year_Inr [OF y] obtain r v where
    pv: "pv_prior_coupons (100 * (p / 100)) scY Y = Inr (PyFloat r)"
    and v: "solve_year Y (100 * (p / 100)) (PyFloat r) = Inr v"
    and scY': "scY' = AList.update Y v scY" by blast
  have same: "map_of sc t = map_of scY t" if "t \<in> {1..Y - 1}" for t
  proof -
    from that lt have "t \<notin> set ys2" by auto
    from bootstrap_loop_other [OF l2 this] that show ?thesis
      by (simp add: scY' update_conv')
  qed
  have Y: "map_of sc Y = Some v"
  proof -
    from lt have "Y \<notin> set ys2" by auto
    from bootstrap_loop_other [OF l2 this] show ?thesis by (simp add: scY' update_conv')
  qed
  have "pv_prior_spec (100 * (p / 100)) (spot_percent sc) Y
      = pv_prior_spec (100 * (p / 100)) (spot_percent scY) Y"
    unfolding pv_prior_spec_def by (rule sum.cong) (simp_all add: spot_percent_def same)
  with pv_prior_coupons_float [OF pv] v Y same show ?thesis by auto
qed

lemma pv_prior_coupons_positive:
  assumes "positive_curve sc"
  shows "pv_prior_coupons c sc Y = Inr (PyFloat (pv_prior_spec c (spot_percent sc) Y))"
proof -
  have ge: "\<forall>t\<in>set [1..Y - 1]. 1 \<le> t" by simp
  have fl: "\<forall>t\<in>set [1..Y - 1]. \<forall>s. map_of sc t = Some s \<longrightarrow> (\<exists>z. s = PyFloat z \<and> 1 + z / 100 \<noteq> 0)"
    using assms unfolding positive_curve_def by fastforce
  have "(\<Sum>t\<leftarrow>[1..Y - 1]. case spot_percent sc t of None \<Rightarrow> 0
                                 | Some s \<Rightarrow> c / (1 + s / 100) ^ nat t)
        = pv_prior_spec c (spot_percent sc) Y"
    unfolding pv_prior_spec_def
    by (subst sum_list_distinct_conv_sum_set) simp_all
  with pv_prior_loop_float [OF ge fl, of c 0] show ?thesis
    by (simp add: pv_prior_coupons_def)
qed

lemma solve_year_positive:
  assumes "Y \<noteq> 0" and "0 < 100 + c"
  shows "\<exists>z. solve_year Y c (PyFloat r) = Inr (PyFloat z) \<and> 0 < 1 + z / 100"
proof (cases "100 - r \<le> 0")
  case True
  then show ?thesis by (simp add: solve_year_def)
next
  case False
  define X where "X = ((100 + c) / (100 - r)) powr (1 / real_of_int Y)"
  from False assms(2) have nz: "100 + c \<noteq> 0" "r \<noteq> 100" "\<not> 100 \<le> r" by simp_all
  from False assms(2) have pos: "0 < (100 + c) / (100 - r)" by simp
  have X: "0 < X" unfolding X_def using nz by simp
  have fp: "float_pow ((100 + c) / (100 - r)) (1 / real_of_int Y) = Inr (PyFloat X)"
    unfolding X_def using pos by (rule float_pow_pos)
  have sv: "solve_year Y c (PyFloat r) = Inr (PyFloat ((X - 1) * 100))"
    using nz assms(1) by (simp add: solve_year_def fp)
  have "1 + ((X - 1) * 100) / 100 = X" by (simp add: field_simps)
  with X have "0 < 1 + ((X - 1) * 100) / 100" by (simp only:)
  with sv show ?thesis by blast
qed

lemma bootstrap_year_positive:
  assumes "positive_curve sc" and "Y \<noteq> 0" and "- 100 < p"
  shows "\<exists>sc'. bootstrap_year sc Y p = Inr sc' \<and> positive_curve sc'"
proof -
  from assms(3) have "0 < 100 + 100 * (p / 100)" by simp
  from solve_year_positive [OF assms(2) this]
  obtain z where z: "solve_year Y (100 * (p / 100))
      (PyFloat (pv_prior_spec (100 * (p / 100)) (spot_percent sc) Y)) = Inr (PyFloat z)"
    and pos: "0 < 1 + z / 100" by blast
  have "bootstrap_year sc Y p = Inr (AList.update Y (PyFloat z) sc)"
    using z by (simp add: bootstrap_year_def pv_prior_coupons_positive [OF assms(1)])
  moreover have "positive_curve (AList.update Y (PyFloat z) sc)"
    using assms(1) pos by (auto simp: positive_curve_def update_conv')
  ultimately show ?thesis by blast
qed

lemma bootstrap_loop_positive:
  assumes "positive_curve sc"
    and "\<forall>y\<in>set ys. y \<noteq> 0 \<and> (\<exists>p. map_of par y = Some p \<and> - 100 < p)"
  shows "\<exists>sc'. bootstrap_loop par ys sc = Inr sc' \<and> positive_curve sc'"
  using assms
proof (induction ys arbitrary: sc)
  case Nil
  then show ?case by simp
next
  case (Cons y ys)
  from Cons.prems(2) obtain p where p: "map_of par y = Some p" "- 100 < p" and y: "y \<noteq> 0"
    by auto
  from bootstrap_year_positive [OF Cons.prems(1) y p(2)]
  obtain sc1 where sc1: "bootstrap_year sc y p = Inr sc1" "positive_curve sc1" by blast
  from Cons.IH [OF sc1(2)] Cons.prems(2)
  obtain sc' where "bootstrap_loop par ys sc1 = Inr sc'" "positive_curve sc'" by auto
  with p sc1 show ?case by simp
qed

lemma bootstrap_spot_curve_total:
  assumes "\<forall>(y, p)\<in>set par. y \<noteq> 0 \<and> - 100 < p"
  shows "\<exists>sc. bootstrap_spot_curve par = Inr sc"
proof -
  have "\<forall>y\<in>set (sort (dict_keys par)). y \<noteq> 0 \<and> (\<exists>p. map_of par y = Some p \<and> - 100 < p)"
  proof
    fix y assume "y \<in> set (sort (dict_keys par))"
    then have "y \<in> fst ` set par" by (simp add: dict_keys_def)
    then obtain p where "map_of par y = Some p"
      by (metis domIff dom_map_of_conv_image_fst not_Some_eq)
    moreover from this have "(y, p) \<in> set par" by (rule map_of_SomeD)
    ultimately show "y \<noteq> 0 \<and> (\<exists>p. map_of par y = Some p \<and> - 100 < p)"
      using assms by auto
  qed
  moreover have "positive_curve []" by (simp add: positive_curve_def)
  ultimately obtain sc where "bootstrap_loop par (sort (dict_keys par)) [] = Inr sc"
    using bootstrap_loop_positive by blast
  then show ?thesis by (simp add: bootstrap_spot_curve_def)
qed

text \<open>
  C10. Whenever \<^verbatim>\<open>bootstrap_spot_curve\<close> returns, the spot curve has exactly the year
  keys of the input, each once; the empty input gives the empty curve without failure;
  and it does return for every input whose years are not 0 and whose par yields are above
  -100%.
\<close>

theorem bootstrap_keys:
  "(\<forall>sc. bootstrap_spot_curve par = Inr sc \<longrightarrow>
      set (dict_keys sc) = set (dict_keys par) \<and> distinct (map fst sc)) \<and>
   bootstrap_spot_curve ([] :: real dict) = Inr [] \<and>
   ((\<forall>(y, p)\<in>set par. y \<noteq> 0 \<and> - 100 < p) \<longrightarrow> (\<exists>sc. bootstrap_spot_curve par = Inr sc))"
proof (intro conjI allI impI)
  fix sc assume run: "bootstrap_spot_curve par = Inr sc"
  then have l: "bootstrap_loop par (sort (dict_keys par)) [] = Inr sc"
    by (simp add: bootstrap_spot_curve_def)
  from bootstrap_loop_keys [OF l] show "set (dict_keys sc) = set (dict_keys par)"
    by (simp add: dict_keys_def)
  from bootstrap_loop_distinct [OF l] show "distinct (map fst sc)" by simp
next
  show "bootstrap_spot_curve ([] :: real dict) = Inr []"
    by (simp add: bootstrap_spot_curve_def dict_keys_def)
next
  assume "\<forall>(y, p)\<in>set par. y \<noteq> 0 \<and> - 100 < p"
  then show "\<exists>sc. bootstrap_spot_curve par = Inr sc" by (rule bootstrap_spot_curve_total)
qed

lemma solve_year_value:
  assumes "Y \<noteq> 0" and "0 < 100 + c" and "r < 100"
  shows "solve_year Y c (PyFloat r) =
         Inr (PyFloat ((((100 + c) / (100 - r)) powr (1 / real_of_int Y) - 1) * 100))"
proof -
  from assms have nz: "100 + c \<noteq> 0" "r \<noteq> 100" "\<not> 100 \<le> r" by simp_all
  from assms have pos: "0 < (100 + c) / (100 - r)" by simp
  have fp: "float_pow ((100 + c) / (100 - r)) (1 / real_of_int Y)
      = Inr (PyFloat (((100 + c) / (100 - r)) powr (1 / real_of_int Y)))"
    using pos by (rule float_pow_pos)
  show ?thesis using nz assms(1) by (simp add: solve_year_def fp)
qed

lemma flat_coupon_sum:
  fixes p :: real
  assumes "0 < 1 + p / 100"
  shows "(\<Sum>t = 1..int n. p / (1 + p / 100) ^ nat t) = 100 * (1 - (1 / (1 + p / 100)) ^ n)"
proof (induction n)
  case 0
  then show ?case by simp
next
  case (Suc n)
  define B where "B = 1 + p / 100"
  have B: "B \<noteq> 0" using assms by (simp add: B_def)
  have p: "p = 100 * (B - 1)" by (simp add: B_def)
  have "{1..int (Suc n)} = insert (int n + 1) {1..int n}" by auto
  then have "(\<Sum>t = 1..int (Suc n). p / B ^ nat t)
      = p / B ^ Suc n + (\<Sum>t = 1..int n. p / B ^ nat t)"
    by (simp add: nat_add_distrib)
  also have "\<dots> = p / B ^ Suc n + 100 * (1 - (1 / B) ^ n)"
    using Suc.IH by (simp add: B_def)
  also have "\<dots> = 100 * (1 - (1 / B) ^ Suc n)"
    using B by (simp add: p field_simps)
  finally show ?case by (simp add: B_def)
qed

lemma root_of_power:
  fixes B :: real
  assumes "0 < B"
  shows "(B ^ Suc n) powr (1 / real (Suc n)) = B"
proof -
  have "B ^ Suc n = B powr real (Suc n)" using assms by (simp only: powr_realpow)
  then have "(B ^ Suc n) powr (1 / real (Suc n)) = B powr (real (Suc n) * (1 / real (Suc n)))"
    by (simp only: powr_powr)
  also have "\<dots> = B powr 1" by simp
  also have "\<dots> = B" using assms by simp
  finally show ?thesis .
qed

lemma solve_year_flat:
  fixes p :: real
  assumes "0 < 1 + p / 100"
  shows "solve_year (int n + 1) p (PyFloat (100 * (1 - (1 / (1 + p / 100)) ^ n)))
         = Inr (PyFloat p)"
proof -
  define B where "B = 1 + p / 100"
  have B: "0 < B" using assms by (simp add: B_def)
  have p: "p = 100 * (B - 1)" by (simp add: B_def)
  have r: "100 * (1 - (1 / B) ^ n) < 100" using B by simp
  have c: "0 < 100 + p" using assms by simp
  have q: "(100 + p) / (100 - 100 * (1 - (1 / B) ^ n)) = B ^ Suc n"
    using B by (simp add: p field_simps)
  have Y: "int n + 1 \<noteq> 0" by simp
  have "solve_year (int n + 1) p (PyFloat (100 * (1 - (1 / B) ^ n)))
      = Inr (PyFloat (((B ^ Suc n) powr (1 / real_of_int (int n + 1)) - 1) * 100))"
    using solve_year_value [OF Y c r] by (simp only: q)
  also have "real_of_int (int n + 1) = real (Suc n)" by simp
  also have "(B ^ Suc n) powr (1 / real (Suc n)) = B" using B by (rule root_of_power)
  also have "(B - 1) * 100 = p" by (simp add: B_def)
  finally show ?thesis by (simp only: B_def)
qed

lemma flat_year:
  assumes inv: "flat_curve p (int n) sc" and B: "0 < 1 + p / 100"
  shows "bootstrap_year sc (int n + 1) p = Inr (AList.update (int n + 1) (PyFloat p) sc)"
proof -
  have pc: "positive_curve sc"
    using inv B by (auto simp: flat_curve_def positive_curve_def split: if_splits)
  have "pv_prior_spec p (spot_percent sc) (int n + 1)
      = (\<Sum>t = 1..int n. p / (1 + p / 100) ^ nat t)"
    unfolding pv_prior_spec_def using inv
    by (intro sum.cong) (simp_all add: spot_percent_def flat_curve_def)
  also have "\<dots> = 100 * (1 - (1 / (1 + p / 100)) ^ n)" using B by (rule flat_coupon_sum)
  finally have pv: "pv_prior_coupons p sc (int n + 1)
      = Inr (PyFloat (100 * (1 - (1 / (1 + p / 100)) ^ n)))"
    by (simp only: pv_prior_coupons_positive [OF pc])
  have "bootstrap_year sc (int n + 1) p =
      (case pv_prior_coupons p sc (int n + 1) of
         Inl e \<Rightarrow> Inl e
       | Inr pv_prior \<Rightarrow>
           (case solve_year (int n + 1) p pv_prior of
              Inl e \<Rightarrow> Inl e
            | Inr spot \<Rightarrow> Inr (AList.update (int n + 1) spot sc)))"
    by (simp add: bootstrap_year_def)
  also have "\<dots> = Inr (AList.update (int n + 1) (PyFloat p) sc)"
    by (simp only: pv solve_year_flat [OF B] sum.case)
  finally show ?thesis .
qed

lemma flat_loop:
  assumes "flat_curve p (int n) sc" and "0 < 1 + p / 100"
    and "\<forall>y\<in>{int n + 1..int n + int m}. map_of par y = Some p"
  shows "\<exists>sc'. bootstrap_loop par [int n + 1..int n + int m] sc = Inr sc' \<and>
               flat_curve p (int n + int m) sc'"
  using assms
proof (induction m arbitrary: n sc)
  case 0
  then show ?case by simp
next
  case (Suc m)
  have l: "[int n + 1..int n + int (Suc m)] = (int n + 1) # [int (Suc n) + 1..int (Suc n) + int m]"
    by (subst upto.simps) (simp add: add.commute add.left_commute)
  from Suc.prems(3) have p1: "map_of par (int n + 1) = Some p" by simp
  have y: "bootstrap_year sc (int n + 1) p = Inr (AList.update (int n + 1) (PyFloat p) sc)"
    using Suc.prems(1,2) by (rule flat_year)
  have inv': "flat_curve p (int (Suc n)) (AList.update (int n + 1) (PyFloat p) sc)"
    using Suc.prems(1) by (auto simp: flat_curve_def update_conv')
  have rest: "\<forall>y\<in>{int (Suc n) + 1..int (Suc n) + int m}. map_of par y = Some p"
    using Suc.prems(3) by auto
  from Suc.IH [OF inv' Suc.prems(2) rest]
  obtain sc' where "bootstrap_loop par [int (Suc n) + 1..int (Suc n) + int m]
      (AList.update (int n + 1) (PyFloat p) sc) = Inr sc'"
    and "flat_curve p (int (Suc n) + int m) sc'" by blast
  moreover have "bootstrap_loop par [int n + 1..int n + int (Suc m)] sc
      = bootstrap_loop par [int (Suc n) + 1..int (Suc n) + int m]
          (AList.update (int n + 1) (PyFloat p) sc)"
    unfolding l using p1 y by simp
  moreover have "int (Suc n) + int m = int n + int (Suc m)" by simp
  ultimately show ?case by (simp only:) blast
qed

text \<open>
  In exact arithmetic a flat par curve over the years 1 to \<open>N\<close> without a gap, at a par
  yield \<open>p\<close> above -100%, is its own spot curve. The float program reaches \<open>p\<close> up to
  rounding only.
\<close>

lemma bootstrap_flat_contiguous_exact:
  assumes keys: "set (dict_keys par) = {1..N}"
    and flat: "\<forall>(y, q)\<in>set par. q = p"
    and p: "- 100 < p"
  shows "\<exists>sc. bootstrap_spot_curve par = Inr sc \<and> set (dict_keys sc) = {1..N} \<and>
              (\<forall>t\<in>{1..N}. map_of sc t = Some (PyFloat p))"
proof -
  have B: "0 < 1 + p / 100" using p by simp
  have ys: "sort (dict_keys par) = [1..N]"
    using keys by (intro sorted_distinct_set_unique) (simp_all add: dict_keys_def)
  have vals: "\<forall>y\<in>{1..N}. map_of par y = Some p"
  proof
    fix y assume "y \<in> {1..N}"
    with keys have "y \<in> fst ` set par" by (simp add: dict_keys_def)
    then obtain q where q: "map_of par y = Some q"
      by (metis domIff dom_map_of_conv_image_fst not_Some_eq)
    then have "(y, q) \<in> set par" by (rule map_of_SomeD)
    with flat q show "map_of par y = Some p" by auto
  qed
  define m where "m = nat N"
  have N: "[1..N] = [int 0 + 1..int 0 + int m]" "{1..N} = {int 0 + 1..int 0 + int m}"
    by (auto simp: m_def)
  have inv0: "flat_curve p (int 0) []" by (simp add: flat_curve_def)
  from flat_loop [OF inv0 B, of m par] vals
  obtain sc where run: "bootstrap_loop par [1..N] [] = Inr sc"
    and inv: "flat_curve p (int 0 + int m) sc"
    unfolding N by blast
  have "bootstrap_spot_curve par = Inr sc" by (simp add: bootstrap_spot_curve_def ys run)
  moreover have "set (dict_keys sc) = {1..N}"
    using bootstrap_loop_keys [OF run] by (simp add: dict_keys_def)
  moreover have "\<forall>t\<in>{1..N}. map_of sc t = Some (PyFloat p)"
    using inv by (auto simp: flat_curve_def m_def)
  ultimately show ?thesis by blast
qed

lemmas bootstrap_eval = bootstrap_spot_curve_def dict_keys_def bootstrap_year_def
  pv_prior_coupons_def solve_year_def float_pow_def upto.simps

lemma bootstrap_flat_contiguous_exact_example:
  "\<exists>sc. bootstrap_spot_curve [(2, 5), (1, 5)] = Inr sc \<and> set (dict_keys sc) = {1..2} \<and>
        map_of sc 1 = Some (PyFloat 5) \<and> map_of sc 2 = Some (PyFloat 5)"
proof -
  have "set (dict_keys [(2 :: int, 5), (1, 5 :: real)]) = {1..2}" by (auto simp: dict_keys_def)
  moreover have "\<forall>(y, q)\<in>set [(2 :: int, 5), (1, 5 :: real)]. q = 5" by simp
  moreover have "- 100 < (5 :: real)" by simp
  ultimately have "\<exists>sc. bootstrap_spot_curve [(2, 5), (1, 5)] = Inr sc \<and>
      set (dict_keys sc) = {1..2} \<and> (\<forall>t\<in>{1..2}. map_of sc t = Some (PyFloat 5))"
    by (rule bootstrap_flat_contiguous_exact)
  then show ?thesis by auto
qed



text \<open>
  C7. For every par-yield input on which the bootstrap returns and every year \<open>Y\<close> of
  it, the spot rate of \<open>Y\<close> is solved from the prior-coupon value of the specification:
  the sum over the integers \<open>t\<close> from 1 to \<open>Y - 1\<close> of \<open>coupon / (1 + spot t / 100) ^ t\<close>
  over the entries of the curve below \<open>Y\<close>, a year absent from the curve adding zero. In
  particular for the input {1: 5, 5: 6} the prior coupons of year 5 are the coupon of
  year 1 alone, \<open>6 / 1.05\<close>: the years 2 to 4 add zero.
\<close>

theorem bootstrap_prior_coupons:
  "(bootstrap_spot_curve par = Inr sc \<and> map_of par Y = Some p \<longrightarrow>
      (\<exists>v. map_of sc Y = Some v \<and>
           solve_year Y (100 * (p / 100))
             (PyFloat (pv_prior_spec (100 * (p / 100)) (spot_percent sc) Y)) = Inr v)) \<and>
   pv_prior_coupons 6 [(1, PyFloat 5)] 5 = Inr (PyFloat (6 / (1 + 5 / 100) ^ 1)) \<and>
   bootstrap_spot_curve [(1, 5), (5, 6)]
     = Inr [(1, PyFloat 5), (5, PyFloat (((371 / 330) powr (1 / 5) - 1) * 100))]"
proof (intro conjI impI)
  assume "bootstrap_spot_curve par = Inr sc \<and> map_of par Y = Some p"
  then have "bootstrap_spot_curve par = Inr sc" and "map_of par Y = Some p" by simp_all
  from bootstrap_year_of_result [OF this]
  show "\<exists>v. map_of sc Y = Some v \<and>
           solve_year Y (100 * (p / 100))
             (PyFloat (pv_prior_spec (100 * (p / 100)) (spot_percent sc) Y)) = Inr v"
    by blast
next
  show "pv_prior_coupons 6 [(1, PyFloat 5)] 5 = Inr (PyFloat (6 / (1 + 5 / 100) ^ 1))"
    by (simp add: bootstrap_eval)
next
  show "bootstrap_spot_curve [(1, 5), (5, 6)]
     = Inr [(1, PyFloat 5), (5, PyFloat (((371 / 330) powr (1 / 5) - 1) * 100))]"
    by (simp add: bootstrap_eval)
qed

theorem bootstrap_prior_coupons_witness:
  "\<exists>v. map_of [(1 :: int, PyFloat 5), (5, PyFloat (((371 / 330) powr (1 / 5) - 1) * 100))] 5 = Some v \<and>
       solve_year 5 6 (PyFloat (pv_prior_spec 6
         (spot_percent [(1, PyFloat 5), (5, PyFloat (((371 / 330) powr (1 / 5) - 1) * 100))]) 5))
       = Inr v"
proof -
  note t = bootstrap_prior_coupons [of "[(1, 5), (5, 6)]"
      "[(1, PyFloat 5), (5, PyFloat (((371 / 330) powr (1 / 5) - 1) * 100))]" 5 6]
  from t [THEN conjunct2, THEN conjunct2] t [THEN conjunct1]
  show ?thesis by simp
qed

theorem bootstrap_keys_witness:
  "\<exists>sc. bootstrap_spot_curve [(1, 5), (5, 6)] = Inr sc \<and> set (dict_keys sc) = {1, 5} \<and>
        distinct (map fst sc)"
proof -
  note t = bootstrap_keys [of "[(1, 5), (5, 6)]"]
  have "\<forall>(y, p)\<in>set [(1 :: int, 5), (5, 6 :: real)]. y \<noteq> 0 \<and> - 100 < p" by simp
  with t obtain sc where sc: "bootstrap_spot_curve [(1, 5), (5, 6)] = Inr sc" by blast
  with t have "set (dict_keys sc) = set (dict_keys [(1 :: int, 5), (5, 6 :: real)])"
    and "distinct (map fst sc)" by blast+
  with sc show ?thesis by (auto simp: dict_keys_def)
qed

section \<open>Properties of the pricing\<close>

lemma discount_loop_positive:
  assumes "0 < discount_base b"
  shows "discount_loop b cfs (PyFloat D, PyFloat U, PyFloat C) =
         Inr (PyFloat (D + ref_dirty_price b cfs), PyFloat (U + ref_duration_sum b cfs),
              PyFloat (C + ref_convexity_sum b cfs))"
proof (induction cfs arbitrary: D U C)
  case Nil
  then show ?case
    by (simp add: ref_dirty_price_def ref_duration_sum_def ref_convexity_sum_def)
next
  case (Cons cf cfs)
  obtain d a where cf: "cf = (d, a)" by (cases cf)
  define n where "n = ref_periods b d"
  have base: "1 + yield_rate b / 100 / real_of_int (get_frequency_int b) = discount_base b"
    by (simp add: discount_base_def)
  have n: "real_of_int (get_frequency_int b) * calculate_year_fraction b (settlement_date b) d = n"
    by (simp add: n_def ref_periods_def ref_time_def)
  have p1: "float_pow (discount_base b) n = Inr (PyFloat (discount_base b powr n))"
    and p2: "float_pow (discount_base b) (n + 2) = Inr (PyFloat (discount_base b powr (n + 2)))"
    using assms by (simp_all add: float_pow_pos)
  have nz: "discount_base b \<noteq> 0" using assms by simp
  have df: "1 / discount_base b powr n = ref_discount_factor b d"
    by (simp add: ref_discount_factor_def n_def powr_minus_divide)
  have cx: "a * n * (n + 1) / discount_base b powr (n + 2)
      = a * n * (n + 1) * discount_base b powr (- (n + 2))"
    by (subst powr_minus_divide) simp
  have step: "discount_loop b (cf # cfs) (PyFloat D, PyFloat U, PyFloat C) =
      discount_loop b cfs
        (PyFloat (D + a * ref_discount_factor b d),
         PyFloat (U + ref_time b d * (a * ref_discount_factor b d)),
         PyFloat (C + a * n * (n + 1) * discount_base b powr (- (n + 2))))"
    unfolding cf
    apply (simp only: discount_loop.simps Let_def base n p1 p2 sum.case)
    apply (simp add: nz df cx ref_time_def del: minus_add_distrib)
    done
  show ?case
    unfolding step Cons.IH
    by (simp add: cf ref_dirty_price_def ref_duration_sum_def ref_convexity_sum_def n_def add.assoc)
qed


lemma get_frequency_int_pos: "0 < get_frequency_int b"
  by (simp add: get_frequency_int_def)

lemma get_frequency_int_nonzero [simp]: "get_frequency_int b \<noteq> 0"
  using get_frequency_int_pos [of b] by simp

lemma calculate_from_positive:
  assumes "0 < discount_base b" and "accrued b lc = Inr (da, ai)"
    and "cash_flows_from b lc = Inr cfs"
  shows "calculate_from b lc =
     Inr \<lparr>dirty_price = PyFloat (ref_dirty_price b cfs),
          clean_price = PyFloat (ref_dirty_price b cfs - ai),
          accrued_interest = ai, days_accrued = da,
          macaulay_duration = PyFloat (ref_macaulay b cfs),
          modified_duration = PyFloat (ref_macaulay b cfs / discount_base b),
          convexity = PyFloat
            (if ref_dirty_price b cfs = 0 then 0
             else ref_convexity_sum b cfs
                  / (ref_dirty_price b cfs * (real_of_int (get_frequency_int b))\<^sup>2))\<rparr>"
proof -
  have base: "1 + yield_rate b / 100 / real_of_int (get_frequency_int b) = discount_base b"
    by (simp add: discount_base_def)
  have nz: "discount_base b \<noteq> 0" using assms(1) by simp
  have loop: "discount_loop b cfs (PyFloat 0, PyFloat 0, PyFloat 0) =
      Inr (PyFloat (ref_dirty_price b cfs), PyFloat (ref_duration_sum b cfs),
           PyFloat (ref_convexity_sum b cfs))"
    using discount_loop_positive [OF assms(1), of cfs 0 0 0] by simp
  show ?thesis
    unfolding calculate_from_def
    apply (simp only: Let_def assms(2,3) loop base sum.case prod.case)
    apply (simp add: nz ref_macaulay_def power2_eq_square mult.assoc)
    done
qed

lemma calculate_positive_formulas:
  assumes "0 < discount_base b" and "calculate b = Some (Inr r)"
  shows "\<exists>lc cfs. get_last_coupon_date b = Some (Inr lc) \<and>
           cash_flows_from b lc = Inr cfs \<and> reference_formulas b cfs r"
proof -
  from assms(2) obtain lc where lc: "get_last_coupon_date b = Some (Inr lc)"
    and r: "calculate_from b lc = Inr r"
    by (auto simp: calculate_def split: option.splits sum.splits)
  from r obtain da ai where a: "accrued b lc = Inr (da, ai)"
    by (cases "accrued b lc") (auto simp: calculate_from_def Let_def)
  from r a obtain cfs where cfs: "cash_flows_from b lc = Inr cfs"
    by (cases "cash_flows_from b lc") (auto simp: calculate_from_def Let_def)
  from calculate_from_positive [OF assms(1) a cfs] r
  have "reference_formulas b cfs r" by (auto simp: reference_formulas_def)
  with lc cfs show ?thesis by blast
qed

lemma discount_loop_zero:
  assumes "discount_base b = 0" and "cfs \<noteq> []"
  shows "discount_loop b cfs acc = Inl ZeroDivisionError"
proof -
  from assms(2) obtain d a rest where cfs: "cfs = (d, a) # rest" by (cases cfs) auto
  obtain D U C where acc: "acc = (D, U, C)" by (metis prod_cases3)
  define n where "n = real_of_int (get_frequency_int b) * calculate_year_fraction b (settlement_date b) d"
  have base: "1 + yield_rate b / 100 / real_of_int (get_frequency_int b) = 0"
    using assms(1) by (simp add: discount_base_def)
  show ?thesis
    unfolding cfs acc
    apply (simp only: discount_loop.simps Let_def base n_def [symmetric])
    apply (cases "n = 0"; cases "n < 0"; simp add: float_pow_def)
    done
qed

lemma calculate_from_zero:
  assumes "discount_base b = 0" and "accrued b lc = Inr a" and "cash_flows_from b lc = Inr cfs"
  shows "calculate_from b lc = Inl ZeroDivisionError"
proof -
  obtain da ai where a: "a = (da, ai)" by (cases a)
  have base: "1 + yield_rate b / 100 / real_of_int (get_frequency_int b) = 0"
    using assms(1) by (simp add: discount_base_def)
  show ?thesis
  proof (cases "cfs = []")
    case True
    show ?thesis
      unfolding calculate_from_def
      by (simp only: Let_def assms(2,3) a True base sum.case prod.case discount_loop.simps) simp
  next
    case False
    show ?thesis
      unfolding calculate_from_def
      by (simp only: Let_def assms(2,3) a discount_loop_zero [OF assms(1) False] sum.case prod.case)
  qed
qed

lemmas calc_eval = calculate_def get_last_coupon_date_def last_coupon_loop.simps example_bond_def
  get_frequency_int_def date_eval calculate_from_def accrued_def calculate_days_30360_def
  cash_flows_from_def next_coupon_date_def generate_cash_flows.simps step_back_def
  calculate_year_fraction_def float_pow_def Let_def

text \<open>
  With a yield of -200% the base is -1; settled on a coupon date one year before the
  maturity, the example bond is priced without any error, at a dirty price of -105.
\<close>

theorem invalid_yield_counterexample:
  "discount_base (example_bond\<lparr>yield_rate := - 200, settlement_date := Date 2028 1 23\<rparr>) = - 1 \<and>
   calculate (example_bond\<lparr>yield_rate := - 200, settlement_date := Date 2028 1 23\<rparr>)
     = Some (Inr \<lparr>dirty_price = PyFloat (- 105), clean_price = PyFloat (- 105),
                   accrued_interest = 0, days_accrued = 0,
                   macaulay_duration = PyFloat 1, modified_duration = PyFloat (- 1),
                   convexity = PyFloat 2\<rparr>)"
  by (simp add: calc_eval discount_base_def)

section \<open>Properties of the cash flows\<close>

text \<open>
  C2 fails on a maturity at the end of a month. For the example bond with semi-annual
  coupons and maturity 2026-12-31, the step back from the maturity lands on June 31st
  and falls back to June 28th; every later date keeps day 28, so the last cash flow is
  dated 2026-12-28, three days before the maturity, and carries the coupon alone: the
  face value is never paid.
\<close>

theorem cash_flows_month_end_maturity:
  "cash_flows (example_bond\<lparr>frequency := ''semi-annually'', maturity_date := Date 2026 12 31\<rparr>)
     = Some (Inr [(Date 2026 6 28, 5 / 2), (Date 2026 12 28, 5 / 2)])"
  by (simp add: cash_flows_def calc_eval)

text \<open>
  The backward loop does not return when a step leaves the candidate unchanged.
\<close>

lemma last_coupon_loop_stuck:
  assumes lt: "date_lt settlement cur" and stuck: "step_back months_step cur = Inr cur"
  shows "last_coupon_loop months_step settlement cur = None"
proof (rule ccontr)
  assume "last_coupon_loop months_step settlement cur \<noteq> None"
  then obtain y where y: "last_coupon_loop months_step settlement cur = Some y" by auto
  have "\<not> (months_step = months_step \<and> settlement = settlement \<and> cur = cur)"
  proof (rule last_coupon_loop.raw_induct
      [where P = "\<lambda>ms s c y. \<not> (ms = months_step \<and> s = settlement \<and> c = cur)", OF _ y])
    fix f ms s c and z :: "py_error + date"
    assume IH: "\<And>ms s c z. f ms s c = Some z \<Longrightarrow> \<not> (ms = months_step \<and> s = settlement \<and> c = cur)"
      and F: "(if date_lt s c
               then case step_back ms c of Inl e \<Rightarrow> Some (Inl e) | Inr d \<Rightarrow> f ms s d
               else Some (Inr c)) = Some z"
    show "\<not> (ms = months_step \<and> s = settlement \<and> c = cur)"
    proof
      assume eq: "ms = months_step \<and> s = settlement \<and> c = cur"
      with F lt stuck have "f months_step settlement cur = Some z" by simp
      from IH [OF this] show False by simp
    qed
  qed
  then show False by simp
qed

section \<open>Properties of the calendar\<close>

lemma div_step:
  fixes y k :: int
  assumes "0 < k"
  shows "y div k = (y - 1) div k + (if y mod k = 0 then 1 else 0)"
proof -
  define q where "q = (y - 1) div k"
  define r where "r = (y - 1) mod k"
  have r: "0 \<le> r" "r < k" using assms by (simp_all add: r_def)
  have y: "y = k * q + (r + 1)" by (simp add: q_def r_def)
  show ?thesis
  proof (cases "r + 1 < k")
    case True
    have "y div k = q" using y _ True by (rule int_div_pos_eq) (use r in simp)
    moreover have "y mod k = r + 1" using y _ True by (rule int_mod_pos_eq) (use r in simp)
    ultimately show ?thesis using r by (simp add: q_def)
  next
    case False
    with r have "r + 1 = k" by simp
    then have "y = k * (q + 1)" by (simp add: y algebra_simps)
    then have "y div k = q + 1" "y mod k = 0" using assms by simp_all
    then show ?thesis by (simp add: q_def)
  qed
qed

lemma mod_implies:
  "(y::int) mod 400 = 0 \<Longrightarrow> y mod 100 = 0" "(y::int) mod 100 = 0 \<Longrightarrow> y mod 4 = 0"
proof -
  have d: "(100::int) dvd 400" "(4::int) dvd 100" by simp_all
  show "y mod 400 = 0 \<Longrightarrow> y mod 100 = 0"
    using mod_mod_cancel [OF d(1), of y] by simp
  show "y mod 100 = 0 \<Longrightarrow> y mod 4 = 0"
    using mod_mod_cancel [OF d(2), of y] by simp
qed

lemma days_before_year_step:
  "days_before_year (y + 1) = days_before_year y + (if is_leap y then 366 else 365)"
proof -
  define A where "A = (y - 1) div 4"
  define B where "B = (y - 1) div 100"
  define C where "C = (y - 1) div 400"
  define p4 where "p4 \<longleftrightarrow> y mod 4 = 0"
  define p100 where "p100 \<longleftrightarrow> y mod 100 = 0"
  define p400 where "p400 \<longleftrightarrow> y mod 400 = 0"
  have d4: "y div 4 = A + (if p4 then 1 else 0)"
    unfolding A_def p4_def by (rule div_step) simp
  have d100: "y div 100 = B + (if p100 then 1 else 0)"
    unfolding B_def p100_def by (rule div_step) simp
  have d400: "y div 400 = C + (if p400 then 1 else 0)"
    unfolding C_def p400_def by (rule div_step) simp
  have imp: "p400 \<Longrightarrow> p100" "p100 \<Longrightarrow> p4"
    unfolding p4_def p100_def p400_def by (rule mod_implies, assumption)+
  have lhs: "days_before_year (y + 1) =
      y * 365 + (A + (if p4 then 1 else 0)) - (B + (if p100 then 1 else 0))
        + (C + (if p400 then 1 else 0))"
    unfolding days_before_year_def Let_def add_diff_cancel_right' d4 d100 d400 ..
  have rhs: "days_before_year y = (y - 1) * 365 + A - B + C"
    unfolding days_before_year_def Let_def A_def B_def C_def ..
  have leap: "is_leap y \<longleftrightarrow> p4 \<and> (\<not> p100 \<or> p400)"
    unfolding is_leap_def p4_def p100_def p400_def ..
  show ?thesis
    unfolding lhs rhs leap using imp
    by (cases p4; cases p100; cases p400) (simp_all add: algebra_simps)
qed

lemma days_before_year_mono: "y \<le> y' \<Longrightarrow> days_before_year y \<le> days_before_year y'"
proof (induction "nat (y' - y)" arbitrary: y')
  case 0
  then show ?case by simp
next
  case (Suc n)
  then have "n = nat ((y' - 1) - y)" "y \<le> y' - 1" by auto
  from Suc.hyps(1) [OF this] have "days_before_year y \<le> days_before_year (y' - 1)" .
  also have "\<dots> \<le> days_before_year y'"
    using days_before_year_step [of "y' - 1"] by (simp split: if_splits)
  finally show ?case .
qed

lemma month_cases:
  "1 \<le> m \<Longrightarrow> m \<le> 12 \<Longrightarrow>
   m = 1 \<or> m = 2 \<or> m = 3 \<or> m = 4 \<or> m = 5 \<or> m = 6 \<or> m = 7 \<or> m = 8 \<or> m = 9 \<or> m = 10 \<or> m = 11 \<or> (m::int) = 12"
  by presburger

lemma days_before_month_step:
  assumes "1 \<le> m" and "m \<le> 11"
  shows "days_before_month y (m + 1) = days_before_month y m + days_in_month y m"
  using month_cases [of m] assms
  by (auto simp: days_before_month_def days_in_month_def)

lemma days_in_month_pos: "28 \<le> days_in_month y m" "days_in_month y m \<le> 31"
  by (simp_all add: days_in_month_def)

lemma days_before_month_mono:
  assumes "1 \<le> m" and "m \<le> m'" and "m' \<le> 12"
  shows "days_before_month y m \<le> days_before_month y m'"
  using assms
proof (induction "nat (m' - m)" arbitrary: m')
  case 0
  then show ?case by simp
next
  case (Suc n)
  then have "n = nat ((m' - 1) - m)" "1 \<le> m" "m \<le> m' - 1" "m' - 1 \<le> 12" by auto
  from Suc.hyps(1) [OF this] have "days_before_month y m \<le> days_before_month y (m' - 1)" .
  also have "\<dots> \<le> days_before_month y m'"
    using days_before_month_step [of "m' - 1" y] days_in_month_pos(1) [of y "m' - 1"] Suc.prems Suc.hyps(2)
    by simp
  finally show ?case .
qed

lemma days_before_month_12:
  "days_before_month y 12 + days_in_month y 12 = (if is_leap y then 366 else 365)"
  by (simp add: days_before_month_def days_in_month_def)

lemma days_before_month_1: "days_before_month y 1 = 0"
  by (simp add: days_before_month_def)

lemma toordinal_strict_mono:
  assumes a: "valid_date a" and b: "valid_date b" and lt: "date_lt a b"
  shows "toordinal a < toordinal b"
proof -
  have in_year: "days_before_month y m + d < days_before_month y m' + d'"
    if "1 \<le> m" "m < m'" "m' \<le> 12" "d \<le> days_in_month y m" "1 \<le> d'" for y m m' d d'
  proof -
    have "days_before_month y m + d \<le> days_before_month y (m + 1)"
      using days_before_month_step [of m y] that by simp
    also have "\<dots> \<le> days_before_month y m'"
      using that by (intro days_before_month_mono) simp_all
    finally show ?thesis using that by simp
  qed
  consider "year a < year b"
    | "year a = year b" "month a < month b"
    | "year a = year b" "month a = month b" "day a < day b"
    using lt by (auto simp: date_lt_def)
  then show ?thesis
  proof cases
    case 1
    have "days_before_month (year a) (month a) \<le> days_before_month (year a) 12"
      using a by (intro days_before_month_mono) (simp_all add: valid_date_def)
    moreover have "month a < 12 \<Longrightarrow>
        days_before_month (year a) (month a) + day a < days_before_month (year a) 12 + 1"
      using a by (intro in_year) (simp_all add: valid_date_def)
    ultimately have "days_before_month (year a) (month a) + day a
        \<le> days_before_month (year a) 12 + days_in_month (year a) 12"
      using a days_in_month_pos(1) [of "year a" 12]
      by (cases "month a < 12") (auto simp: valid_date_def)
    then have "toordinal a \<le> days_before_year (year a + 1)"
      by (simp add: toordinal_def days_before_year_step days_before_month_12)
    also have "\<dots> \<le> days_before_year (year b)"
      using 1 by (intro days_before_year_mono) simp
    also have "\<dots> < toordinal b"
    proof -
      have "days_before_month (year b) 1 \<le> days_before_month (year b) (month b)"
        using b by (intro days_before_month_mono) (simp_all add: valid_date_def)
      then show ?thesis using b by (simp add: toordinal_def valid_date_def days_before_month_1)
    qed
    finally show ?thesis .
  next
    case 2
    have "days_before_month (year a) (month a) + day a
        < days_before_month (year a) (month b) + day b"
      using a b 2 by (intro in_year) (simp_all add: valid_date_def)
    then show ?thesis using 2 by (simp add: toordinal_def)
  next
    case 3
    then show ?thesis by (simp add: toordinal_def)
  qed
qed

section \<open>Properties of the coupon schedule\<close>

lemma valid_dateD:
  assumes "valid_date d"
  shows "1 \<le> year d" "year d \<le> 9999" "1 \<le> month d" "month d \<le> 12" "1 \<le> day d"
    "day d \<le> days_in_month (year d) (month d)"
  using assms by (simp_all add: valid_date_def)

lemma valid_date_day28:
  "1 \<le> y \<Longrightarrow> y \<le> 9999 \<Longrightarrow> 1 \<le> m \<Longrightarrow> m \<le> 12 \<Longrightarrow> valid_date (Date y m 28)"
  using days_in_month_pos(1) [of y m] by (simp add: valid_date_def)

lemma month_wrap_down_months:
  "month_wrap_down y m = (y', m') \<Longrightarrow>
     12 * y' + m' = 12 * y + m \<and> 1 \<le> m' \<and> (m \<le> 12 \<longrightarrow> m' \<le> 12)"
proof (induction y m rule: month_wrap_down.induct)
  case (1 y m)
  then show ?case
    by (cases "m \<le> 0") (simp_all add: month_wrap_down.simps [of y m])
qed

lemma month_wrap_up_range:
  "month_wrap_up y m = (y', m') \<Longrightarrow> m' \<le> 12 \<and> (1 \<le> m \<longrightarrow> 1 \<le> m')"
proof (induction y m rule: month_wrap_up.induct)
  case (1 y m)
  then show ?case
    by (cases "m > 12") (simp_all add: month_wrap_up.simps [of y m])
qed

lemma date_lt_month_index:
  assumes "valid_date a" and "valid_date b" and "date_lt a b"
  shows "month_index a \<le> month_index b"
  using valid_dateD(3,4) [OF assms(1)] valid_dateD(3,4) [OF assms(2)] assms(3)
  by (auto simp: date_lt_def month_index_def)

lemma month_index_date_lt:
  assumes "valid_date a" and "valid_date b" and "month_index a < month_index b"
  shows "date_lt a b"
  using valid_dateD(3,4) [OF assms(1)] valid_dateD(3,4) [OF assms(2)] assms(3)
  by (auto simp: date_lt_def month_index_def)

lemma date_new_day:
  assumes "1 \<le> y" "y \<le> 9999" "1 \<le> m" "m \<le> 12" "1 \<le> d"
  shows "date_new y m d = (if d \<le> days_in_month y m then Inr (Date y m d) else Inl ValueError)"
  using assms by (simp add: date_new_def valid_date_def)

lemma date_or_28_valid:
  assumes "1 \<le> y" "y \<le> 9999" "1 \<le> m" "m \<le> 12" "1 \<le> d"
  shows "\<exists>x. date_or_28 y m d = Inr x \<and> valid_date x \<and> year x = y \<and> month x = m \<and>
             (day x = d \<or> (day x = 28 \<and> 29 \<le> d))"
proof (cases "d \<le> days_in_month y m")
  case True
  then have "date_or_28 y m d = Inr (Date y m d)"
    by (simp add: date_or_28_def date_new_day [OF assms])
  moreover have "valid_date (Date y m d)" using True assms by (simp add: valid_date_def)
  ultimately show ?thesis by simp
next
  case False
  with days_in_month_pos(1) [of y m] have d29: "29 \<le> d" by simp
  have "date_new y m 28 = Inr (Date y m 28)"
    using assms(1-4) days_in_month_pos(1) [of y m] by (simp add: date_new_def valid_date_def)
  then have "date_or_28 y m d = Inr (Date y m 28)"
    using False by (simp add: date_or_28_def date_new_day [OF assms])
  moreover have "valid_date (Date y m 28)" using assms(1-4) by (rule valid_date_day28)
  ultimately show ?thesis using d29 by simp
qed

lemma months_step_range:
  "1 \<le> 12 div get_frequency_int b" "12 div get_frequency_int b \<le> 12"
  using months_step_cases [of b] by auto

lemma next_coupon_date_valid:
  assumes d: "valid_date d" and y: "year d \<le> 9998"
  shows "\<exists>x. next_coupon_date b d = Inr x \<and> valid_date x \<and>
             month_index x = month_index d + 12 div get_frequency_int b \<and>
             (day x = day d \<or> (day x = 28 \<and> 29 \<le> day d))"
proof -
  let ?s = "12 div get_frequency_int b"
  obtain y' m' where w: "month_wrap_up (year d) (month d + ?s) = (y', m')"
    by (cases "month_wrap_up (year d) (month d + ?s)")
  note c = valid_dateD [OF d]
  note st = months_step_range [of b]
  from month_wrap_up_months [OF w] month_wrap_up_range [OF w] c(3) st
  have idx: "12 * y' + m' = 12 * year d + month d + ?s" and m: "1 \<le> m'" "m' \<le> 12"
    by simp_all
  from idx m c(1,3,4) st y have y': "1 \<le> y'" "y' \<le> 9999" by simp_all
  from date_or_28_valid [OF y' m c(5)] obtain x where
    x: "date_or_28 y' m' (day d) = Inr x" "valid_date x" "year x = y'" "month x = m'"
      "day x = day d \<or> (day x = 28 \<and> 29 \<le> day d)" by blast
  have "next_coupon_date b d = Inr x" using w x(1) by (simp add: next_coupon_date_def Let_def)
  then show ?thesis using x idx by (simp add: month_index_def)
qed

lemma next_coupon_date_if_valid:
  assumes d: "valid_date d" and y: "year d \<le> 9998"
  shows "\<exists>x. next_coupon_date_if b d = Inr x \<and> valid_date x \<and>
             month_index x = month_index d + 12 div get_frequency_int b"
proof -
  let ?s = "12 div get_frequency_int b"
  note c = valid_dateD [OF d]
  note st = months_step_range [of b]
  show ?thesis
  proof (cases "month d + ?s > 12")
    case True
    have r: "1 \<le> year d + 1" "year d + 1 \<le> 9999" "1 \<le> month d + ?s - 12" "month d + ?s - 12 \<le> 12"
      using c y st True by simp_all
    from date_or_28_valid [OF r c(5)] obtain x where
      "date_or_28 (year d + 1) (month d + ?s - 12) (day d) = Inr x" "valid_date x"
      "year x = year d + 1" "month x = month d + ?s - 12" by blast
    then show ?thesis using True by (simp add: next_coupon_date_if_def Let_def month_index_def)
  next
    case False
    have r: "1 \<le> year d" "year d \<le> 9999" "1 \<le> month d + ?s" "month d + ?s \<le> 12"
      using c st False by simp_all
    from date_or_28_valid [OF r c(5)] obtain x where
      "date_or_28 (year d) (month d + ?s) (day d) = Inr x" "valid_date x"
      "year x = year d" "month x = month d + ?s" by blast
    then show ?thesis using False by (simp add: next_coupon_date_if_def Let_def month_index_def)
  qed
qed

lemma accrued_returns:
  assumes d: "valid_date lc" and y: "year lc \<le> 9998"
  shows "\<exists>da ai. accrued b lc = Inr (da, ai)"
proof -
  from next_coupon_date_if_valid [OF d y, of b] obtain x where
    x: "next_coupon_date_if b lc = Inr x" "valid_date x"
      "month_index x = month_index lc + 12 div get_frequency_int b" by blast
  have "month_index lc < month_index x" using x(3) months_step_range(1) [of b] by simp
  from month_index_date_lt [OF d x(2) this] have "date_lt lc x" .
  from toordinal_strict_mono [OF d x(2) this] have nz: "days_between lc x \<noteq> 0"
    by (simp add: days_between_def)
  have "\<not> isl (accrued b lc)"
    by (simp add: accrued_def Let_def x(1) nz)
  then obtain p where "accrued b lc = Inr p" by (cases "accrued b lc") auto
  then show ?thesis by (cases p) auto
qed

lemma step_back_valid:
  assumes cur: "valid_date cur" and y2: "2 \<le> year cur" and st: "1 \<le> months_step" "months_step \<le> 12"
  shows "\<exists>d. step_back months_step cur = Inr d \<and> valid_date d \<and>
             month_index d = month_index cur - months_step \<and>
             (day d = day cur \<or> (day d = 28 \<and> 29 \<le> day cur))"
proof -
  obtain y m where w: "month_wrap_down (year cur) (month cur - months_step) = (y, m)"
    by (cases "month_wrap_down (year cur) (month cur - months_step)")
  note c = valid_dateD [OF cur]
  from month_wrap_down_months [OF w] c(3,4) st
  have idx: "12 * y + m = 12 * year cur + month cur - months_step" and m: "1 \<le> m" "m \<le> 12"
    by simp_all
  from idx m c(3,4) st y2 c(2) have y: "1 \<le> y" "y \<le> 9999" by simp_all
  note dn = date_new_day [OF y m]
  show ?thesis
  proof (cases "day cur \<le> days_in_month y m")
    case True
    then have "step_back months_step cur = Inr (Date y m (day cur))"
      using c(5) by (simp add: step_back_def w dn)
    moreover have "valid_date (Date y m (day cur))"
      using True y m c(5) by (simp add: valid_date_def)
    ultimately show ?thesis using idx by (simp add: month_index_def)
  next
    case False
    with days_in_month_pos(1) [of y m] have d29: "29 \<le> day cur" by simp
    have "date_new y m 28 = Inr (Date y m 28)"
      using y m days_in_month_pos(1) [of y m] by (simp add: date_new_def valid_date_def)
    then have "step_back months_step cur = Inr (Date y m 28)"
      using False c(5) d29 by (simp add: step_back_def w dn)
    moreover have "valid_date (Date y m 28)" using y m by (rule valid_date_day28)
    ultimately show ?thesis using idx d29 by (simp add: month_index_def)
  qed
qed

lemma last_coupon_loop_returns:
  assumes s: "valid_date settlement" "2 \<le> year settlement"
    and st: "1 \<le> months_step" "months_step \<le> 12" and cur: "valid_date cur"
  shows "\<exists>lc. last_coupon_loop months_step settlement cur = Some (Inr lc) \<and> valid_date lc \<and>
           \<not> date_lt settlement lc"
  using cur
proof (induction "nat (month_index cur - month_index settlement + 1)" arbitrary: cur
    rule: less_induct)
  case less
  show ?case
  proof (cases "date_lt settlement cur")
    case False
    then have "last_coupon_loop months_step settlement cur = Some (Inr cur)"
      by (simp add: last_coupon_loop.simps)
    then show ?thesis using False less.prems by blast
  next
    case True
    from date_lt_month_index [OF s(1) less.prems True]
    have ge: "month_index settlement \<le> month_index cur" .
    from True s(2) have "2 \<le> year cur" by (auto simp: date_lt_def)
    from step_back_valid [OF less.prems this st] obtain d where
      d: "step_back months_step cur = Inr d" "valid_date d"
        "month_index d = month_index cur - months_step" by blast
    have "nat (month_index d - month_index settlement + 1)
        < nat (month_index cur - month_index settlement + 1)"
      using d(3) ge st(1) by simp
    from less.hyps [OF this d(2)] obtain lc where
      lc: "last_coupon_loop months_step settlement d = Some (Inr lc)" "valid_date lc"
        "\<not> date_lt settlement lc" by blast
    have "last_coupon_loop months_step settlement cur = Some (Inr lc)"
      using True d(1) lc(1) by (subst last_coupon_loop.simps) simp
    then show ?thesis using lc(2,3) by blast
  qed
qed

lemma generate_cash_flows_returns:
  assumes "valid_date cur" and "year (maturity_date b) \<le> 9998"
  shows "\<exists>cfs. generate_cash_flows b cv cur acc = Inr cfs"
  using assms
proof (induction b cv cur acc rule: generate_cash_flows.induct)
  case (1 b cv cur acc)
  show ?case
  proof (cases "date_le cur (maturity_date b)")
    case False
    then show ?thesis by (simp add: generate_cash_flows.simps [of b cv cur acc])
  next
    case True
    then have "year cur \<le> year (maturity_date b)" by (auto simp: date_le_def date_lt_def)
    with "1.prems" have "year cur \<le> 9998" by simp
    from next_coupon_date_valid [OF "1.prems"(1) this, of b] obtain x where
      x: "next_coupon_date b cur = Inr x" "valid_date x" by blast
    from "1.IH" [OF True refl x(1) x(2) "1.prems"(2)] obtain cfs where
      "generate_cash_flows b cv x
         (acc @ [(cur, if cur = maturity_date b then cv + face_value b else cv)]) = Inr cfs" ..
    then show ?thesis using True x(1)
      by (simp add: generate_cash_flows.simps [of b cv cur acc])
  qed
qed

lemma schedule_returns:
  assumes v: "valid_date (maturity_date b)" "valid_date (settlement_date b)"
    and lt: "date_lt (settlement_date b) (maturity_date b)"
    and yr: "2 \<le> year (settlement_date b)" "year (maturity_date b) \<le> 9998"
  shows "\<exists>lc da ai cfs. get_last_coupon_date b = Some (Inr lc) \<and>
           accrued b lc = Inr (da, ai) \<and> cash_flows_from b lc = Inr cfs"
proof -
  from last_coupon_loop_returns [OF v(2) yr(1) months_step_range v(1), of b]
  obtain lc where lc: "get_last_coupon_date b = Some (Inr lc)" "valid_date lc"
    "\<not> date_lt (settlement_date b) lc"
    by (auto simp: get_last_coupon_date_def Let_def)
  from lc(3) have "year lc \<le> year (settlement_date b)" by (auto simp: date_lt_def)
  moreover from lt have "year (settlement_date b) \<le> year (maturity_date b)"
    by (auto simp: date_lt_def)
  ultimately have y: "year lc \<le> 9998" using yr(2) by simp
  from accrued_returns [OF lc(2) y, of b] obtain da ai where a: "accrued b lc = Inr (da, ai)"
    by blast
  from next_coupon_date_valid [OF lc(2) y, of b] obtain x where
    x: "next_coupon_date b lc = Inr x" "valid_date x" by blast
  from generate_cash_flows_returns [OF x(2) yr(2)] x(1)
  obtain cfs where cfs: "cash_flows_from b lc = Inr cfs"
    by (auto simp: cash_flows_from_def Let_def)
  from lc(1) a cfs show ?thesis by blast
qed

text \<open>
  In exact arithmetic the discounting of a positive base cannot fail either, so that a
  record is returned. (In the program \<^verbatim>\<open>pow\<close> can still overflow, or underflow to a zero
  divisor, for an extreme base or a very long schedule; the reals of this theory cannot.)
\<close>

lemma calculate_returns:
  assumes v: "valid_date (maturity_date b)" "valid_date (settlement_date b)"
    and lt: "date_lt (settlement_date b) (maturity_date b)"
    and yr: "2 \<le> year (settlement_date b)" "year (maturity_date b) \<le> 9998"
    and base: "0 < discount_base b"
  shows "\<exists>r. calculate b = Some (Inr r)"
proof -
  from schedule_returns [OF v lt yr] obtain lc da ai cfs where
    s: "get_last_coupon_date b = Some (Inr lc)" "accrued b lc = Inr (da, ai)"
      "cash_flows_from b lc = Inr cfs" by blast
  from calculate_from_positive [OF base s(2,3)] s(1) show ?thesis
    by (simp add: calculate_def)
qed

section \<open>The pricing claims\<close>

text \<open>
  C1. For every bond with settlement before maturity and \<open>1 + yieldRate / frequency > 0\<close>,
  every result record that \<^verbatim>\<open>calculate\<close> returns satisfies the reference formulas over
  the cash flows the code has built: the dirty price is the sum of the amounts times
  \<open>(1 + yieldRate / frequency)\<close> to the power \<open>- n\<close> with \<open>n = frequency * t\<close> unrounded and
  \<open>t\<close> the year fraction from the settlement; the clean price is the dirty price minus
  the accrued interest; the Macaulay duration is the duration sum over the dirty price
  (0 when the dirty price is 0); the modified duration is the Macaulay duration over
  \<open>1 + yieldRate / frequency\<close>; the convexity is the convexity sum over the dirty price
  times the square of the frequency (0 when the dirty price is 0). And the inputs of
  these formulas are always produced: whenever the two dates are valid, the settlement
  year is at least 2 and the maturity year at most 9998, the backward loop returns the
  last coupon date, the accrued interest is computed and the cash-flow loop returns the
  cash flows, none of them raising; and a record is returned when moreover the maturity
  is at most 100 years after the settlement and \<open>1 + yieldRate / frequency\<close> lies between
  0.6 and 1.5, a range in which the powers of the program neither overflow nor reach 0.
\<close>

theorem calculate_reference_formulas:
  assumes "date_lt (settlement_date b) (maturity_date b)" and "0 < discount_base b"
  shows "(\<forall>r. calculate b = Some (Inr r) \<longrightarrow>
            (\<exists>lc cfs. get_last_coupon_date b = Some (Inr lc) \<and>
                      cash_flows_from b lc = Inr cfs \<and> reference_formulas b cfs r)) \<and>
         (valid_date (maturity_date b) \<and> valid_date (settlement_date b) \<and>
          2 \<le> year (settlement_date b) \<and> year (maturity_date b) \<le> 9998 \<longrightarrow>
            (\<exists>lc da ai cfs. get_last_coupon_date b = Some (Inr lc) \<and>
               accrued b lc = Inr (da, ai) \<and> cash_flows_from b lc = Inr cfs) \<and>
            (year (maturity_date b) \<le> year (settlement_date b) + 100 \<and>
             3 / 5 \<le> discount_base b \<and> discount_base b \<le> 3 / 2 \<longrightarrow>
               (\<exists>r. calculate b = Some (Inr r))))"
proof (intro conjI allI impI)
  fix r assume "calculate b = Some (Inr r)"
  with assms(2) show "\<exists>lc cfs. get_last_coupon_date b = Some (Inr lc) \<and>
      cash_flows_from b lc = Inr cfs \<and> reference_formulas b cfs r"
    by (rule calculate_positive_formulas)
next
  assume "valid_date (maturity_date b) \<and> valid_date (settlement_date b) \<and>
          2 \<le> year (settlement_date b) \<and> year (maturity_date b) \<le> 9998"
  with assms(1) show "\<exists>lc da ai cfs. get_last_coupon_date b = Some (Inr lc) \<and>
               accrued b lc = Inr (da, ai) \<and> cash_flows_from b lc = Inr cfs"
    by (intro schedule_returns) simp_all
next
  assume "valid_date (maturity_date b) \<and> valid_date (settlement_date b) \<and>
          2 \<le> year (settlement_date b) \<and> year (maturity_date b) \<le> 9998"
  with assms show "\<exists>r. calculate b = Some (Inr r)"
    by (intro calculate_returns) simp_all
qed

theorem calculate_reference_formulas_witness:
  "\<exists>r lc cfs. calculate example_bond = Some (Inr r) \<and>
     get_last_coupon_date example_bond = Some (Inr lc) \<and>
     cash_flows_from example_bond lc = Inr cfs \<and> reference_formulas example_bond cfs r"
proof -
  have lt: "date_lt (settlement_date example_bond) (maturity_date example_bond)"
    by (simp add: example_bond_def date_lt_def)
  have base: "0 < discount_base example_bond"
    by (simp add: discount_base_def example_bond_def get_frequency_int_def)
  have v: "valid_date (maturity_date example_bond)" "valid_date (settlement_date example_bond)"
    "2 \<le> year (settlement_date example_bond)" "year (maturity_date example_bond) \<le> 9998"
    by (simp_all add: example_bond_def valid_date_def days_in_month_def)
  have w: "year (maturity_date example_bond) \<le> year (settlement_date example_bond) + 100"
    "3 / 5 \<le> discount_base example_bond" "discount_base example_bond \<le> 3 / 2"
    by (simp_all add: discount_base_def example_bond_def get_frequency_int_def)
  note t = calculate_reference_formulas [OF lt base]
  from t v w obtain r where r: "calculate example_bond = Some (Inr r)" by blast
  with t show ?thesis by blast
qed

subsection \<open>Settlement on or after the maturity\<close>

lemma late_settlement_no_cash_flows:
  assumes v: "valid_date (maturity_date b)" and y: "year (maturity_date b) \<le> 9998"
  shows "cash_flows_from b (maturity_date b) = Inr []"
proof -
  from next_coupon_date_valid [OF v y, of b] obtain x where
    x: "next_coupon_date b (maturity_date b) = Inr x" "valid_date x"
      "month_index x = month_index (maturity_date b) + 12 div get_frequency_int b" by blast
  have gt: "month_index (maturity_date b) < month_index x"
    using x(3) months_step_range(1) [of b] by simp
  have "\<not> date_le x (maturity_date b)"
  proof
    assume "date_le x (maturity_date b)"
    then consider "date_lt x (maturity_date b)" | "x = maturity_date b"
      by (auto simp: date_le_def)
    then show False
    proof cases
      case 1
      from date_lt_month_index [OF x(2) v 1] gt show False by simp
    next
      case 2
      with gt show False by simp
    qed
  qed
  then show ?thesis using x(1)
    by (simp add: cash_flows_from_def Let_def generate_cash_flows.simps)
qed

lemma calculate_from_no_cash_flows:
  assumes "accrued b lc = Inr (da, ai)" and "cash_flows_from b lc = Inr []"
  shows "calculate_from b lc =
     (if discount_base b = 0 then Inl ZeroDivisionError
      else Inr \<lparr>dirty_price = PyFloat 0, clean_price = PyFloat (- ai),
                accrued_interest = ai, days_accrued = da,
                macaulay_duration = PyFloat 0, modified_duration = PyFloat 0,
                convexity = PyFloat 0\<rparr>)"
proof -
  have base: "1 + yield_rate b / 100 / real_of_int (get_frequency_int b) = discount_base b"
    by (simp add: discount_base_def)
  show ?thesis
    unfolding calculate_from_def
    by (simp only: Let_def assms base sum.case prod.case discount_loop.simps) simp
qed

text \<open>
  C3 (as the code has it). For every bond whose settlement date is on or after its
  maturity date, a valid date of a year up to 9998, nothing rejects the dates: the
  backward loop is not entered and the last coupon date is the maturity date itself; no
  cash flow remains; the accrued interest is computed from the maturity date; and
  \<^verbatim>\<open>calculate\<close> returns a record with dirty price 0, clean price minus the accrued
  interest, both durations 0 and convexity 0, except when \<open>1 + yieldRate / frequency\<close> is
  0, where the modified duration divides by zero and \<^verbatim>\<open>ZeroDivisionError\<close> is raised.
\<close>

theorem last_coupon_date_late_settlement:
  assumes "date_le (maturity_date b) (settlement_date b)"
    and "valid_date (maturity_date b)" and "year (maturity_date b) \<le> 9998"
  shows "get_last_coupon_date b = Some (Inr (maturity_date b)) \<and>
         cash_flows b = Some (Inr []) \<and>
         (\<exists>da ai. accrued b (maturity_date b) = Inr (da, ai) \<and>
            calculate b = Some
              (if discount_base b = 0 then Inl ZeroDivisionError
               else Inr \<lparr>dirty_price = PyFloat 0, clean_price = PyFloat (- ai),
                         accrued_interest = ai, days_accrued = da,
                         macaulay_duration = PyFloat 0, modified_duration = PyFloat 0,
                         convexity = PyFloat 0\<rparr>))"
proof -
  have "\<not> date_lt (settlement_date b) (maturity_date b)"
    using assms(1) by (rule date_le_not_lt)
  then have lc: "get_last_coupon_date b = Some (Inr (maturity_date b))"
    by (simp add: get_last_coupon_date_def last_coupon_loop.simps)
  have cfs: "cash_flows_from b (maturity_date b) = Inr []"
    using assms(2,3) by (rule late_settlement_no_cash_flows)
  from accrued_returns [OF assms(2,3), of b] obtain da ai where
    a: "accrued b (maturity_date b) = Inr (da, ai)" by blast
  from calculate_from_no_cash_flows [OF a cfs] lc cfs a show ?thesis
    by (simp add: calculate_def cash_flows_def)
qed

theorem last_coupon_date_late_settlement_witness:
  "get_last_coupon_date (example_bond\<lparr>settlement_date := Date 2029 1 23\<rparr>)
     = Some (Inr (Date 2029 1 23)) \<and>
   cash_flows (example_bond\<lparr>settlement_date := Date 2029 1 23\<rparr>) = Some (Inr []) \<and>
   calculate (example_bond\<lparr>settlement_date := Date 2029 1 23\<rparr>)
     = Some (Inr \<lparr>dirty_price = PyFloat 0, clean_price = PyFloat 0,
                   accrued_interest = 0, days_accrued = 0,
                   macaulay_duration = PyFloat 0, modified_duration = PyFloat 0,
                   convexity = PyFloat 0\<rparr>)"
proof -
  let ?b = "example_bond\<lparr>settlement_date := Date 2029 1 23\<rparr>"
  have h: "date_le (maturity_date ?b) (settlement_date ?b)" "valid_date (maturity_date ?b)"
    "year (maturity_date ?b) \<le> 9998"
    by (simp_all add: example_bond_def date_le_def valid_date_def days_in_month_def)
  have a: "accrued ?b (maturity_date ?b) = Inr (0, 0)"
    by (simp add: example_bond_def accrued_def calculate_days_30360_def get_frequency_int_def)
  have b: "discount_base ?b \<noteq> 0"
    by (simp add: discount_base_def example_bond_def get_frequency_int_def)
  from last_coupon_date_late_settlement [OF h] a b show ?thesis
    by (simp add: example_bond_def)
qed

subsection \<open>A discount base that is not positive\<close>

text \<open>
  C5 (as the code has it). \<^verbatim>\<open>calculate\<close> has no check of the yield. For every bond
  with \<open>1 + yieldRate / frequency = 0\<close> it never returns a record, and once the last coupon
  date, the accrued interest and the cash flows are computed it ends in
  \<^verbatim>\<open>ZeroDivisionError\<close>, raised where the power term or the base itself is divided by.
\<close>

theorem calculate_zero_base:
  assumes "discount_base b = 0"
  shows "(\<forall>r. calculate b \<noteq> Some (Inr r)) \<and>
         (\<forall>lc a cfs. get_last_coupon_date b = Some (Inr lc) \<and> accrued b lc = Inr a \<and>
                      cash_flows_from b lc = Inr cfs \<longrightarrow>
                      calculate b = Some (Inl ZeroDivisionError))"
proof (intro conjI allI impI)
  fix r
  show "calculate b \<noteq> Some (Inr r)"
  proof
    assume "calculate b = Some (Inr r)"
    then obtain lc where lc: "get_last_coupon_date b = Some (Inr lc)"
      and r: "calculate_from b lc = Inr r"
      by (auto simp: calculate_def split: option.splits sum.splits)
    from r obtain a where a: "accrued b lc = Inr a"
      by (cases "accrued b lc") (auto simp: calculate_from_def Let_def)
    from r a obtain cfs where cfs: "cash_flows_from b lc = Inr cfs"
      by (cases "cash_flows_from b lc") (auto simp: calculate_from_def Let_def split: prod.splits)
    from calculate_from_zero [OF assms a cfs] r show False by simp
  qed
next
  fix lc a cfs
  assume "get_last_coupon_date b = Some (Inr lc) \<and> accrued b lc = Inr a \<and>
          cash_flows_from b lc = Inr cfs"
  with calculate_from_zero [OF assms, of lc a cfs] show "calculate b = Some (Inl ZeroDivisionError)"
    by (simp add: calculate_def)
qed

theorem calculate_zero_base_witness:
  "calculate (example_bond\<lparr>yield_rate := - 100\<rparr>) = Some (Inl ZeroDivisionError)"
proof -
  let ?b = "example_bond\<lparr>yield_rate := - 100\<rparr>"
  have b0: "discount_base ?b = 0"
    by (simp add: discount_base_def example_bond_def get_frequency_int_def)
  have lc: "get_last_coupon_date ?b = Some (Inr (Date 2026 1 23))"
    by (simp add: calc_eval)
  have ac: "accrued ?b (Date 2026 1 23) = Inr (4, 1 / 18)"
    by (simp add: calc_eval)
  have cf: "cash_flows_from ?b (Date 2026 1 23)
      = Inr [(Date 2027 1 23, 5), (Date 2028 1 23, 5), (Date 2029 1 23, 105)]"
    by (simp add: calc_eval)
  from calculate_zero_base [OF b0] lc ac cf show ?thesis by blast
qed

subsection \<open>A single remaining cash flow\<close>








section \<open>The flat curve at zero\<close>








end
